theory Spec2Isabelle
  imports Complex_Main "HOL-Library.Multiset"
begin

section \<open>Build-time parameters\<close>

text \<open>
  The R-tree of the repository is one C file. Its dimensionality \<open>NUM_DIMS\<close> is a
  preprocessor parameter (2 when the build does not define it; 3 and 4 are the other
  values the file accepts). Every function below takes it as its first argument \<open>d\<close>.
\<close>

definition NUM_DIMS :: nat where
  "NUM_DIMS = 2"

definition MAX_NODES :: nat where
  "MAX_NODES = 16"

definition MIN_NODES :: nat where
  "MIN_NODES = MAX_NODES div 2"

definition USE_SPHERICAL_VOLUME :: bool where
  "USE_SPHERICAL_VOLUME = True"

definition UNIT_SPHERE_VOLUME :: "nat \<Rightarrow> real" where
  "UNIT_SPHERE_VOLUME d =
     (if d = 2 then 3.141593 else if d = 3 then 4.188790 else 4.934802)"

section \<open>Doubles\<close>

text \<open>
  The coordinates of a rectangle are finite doubles, read as the real numbers they denote:
  comparing two finite doubles and taking their \<open>min\<close> or \<open>max\<close> is exact. The size
  heuristic computes with them (differences, products, a square root) and its results can
  overflow. What it computes is therefore a \<open>double\<close>: a real number, plus or minus
  infinity, or NaN. An operation whose exact result reaches \<open>2^1024 - 2^970\<close> in magnitude,
  the point from which IEEE 754 binary64 rounds to infinity, gives an infinity; the
  difference of two equal infinities and the product of zero and an infinity are NaN; NaN
  propagates, and every comparison with NaN is false. The rounding of a finite result to
  53 bits and the sign of zero are not modelled.
\<close>

datatype double = Fin real | PInf | NInf | NaN

definition DBL_OVERFLOW :: real where
  "DBL_OVERFLOW = 2 ^ 1024 - 2 ^ 970"

definition to_double :: "real \<Rightarrow> double" where
  "to_double x = (if DBL_OVERFLOW \<le> x then PInf else if x \<le> - DBL_OVERFLOW then NInf else Fin x)"

fun d_neg :: "double \<Rightarrow> double" where
  "d_neg (Fin x) = Fin (- x)"
| "d_neg PInf = NInf"
| "d_neg NInf = PInf"
| "d_neg NaN = NaN"

fun d_add :: "double \<Rightarrow> double \<Rightarrow> double" where
  "d_add (Fin x) (Fin y) = to_double (x + y)"
| "d_add NaN b = NaN"
| "d_add a NaN = NaN"
| "d_add PInf NInf = NaN"
| "d_add NInf PInf = NaN"
| "d_add PInf b = PInf"
| "d_add a PInf = PInf"
| "d_add NInf b = NInf"
| "d_add a NInf = NInf"

definition d_sub :: "double \<Rightarrow> double \<Rightarrow> double" where
  "d_sub a b = d_add a (d_neg b)"

definition inf_times :: "bool \<Rightarrow> real \<Rightarrow> double" where
  "inf_times positive y =
     (if y = 0 then NaN else if (0 < y) = positive then PInf else NInf)"

fun d_mul :: "double \<Rightarrow> double \<Rightarrow> double" where
  "d_mul (Fin x) (Fin y) = to_double (x * y)"
| "d_mul NaN b = NaN"
| "d_mul a NaN = NaN"
| "d_mul PInf (Fin y) = inf_times True y"
| "d_mul NInf (Fin y) = inf_times False y"
| "d_mul (Fin x) PInf = inf_times True x"
| "d_mul (Fin x) NInf = inf_times False x"
| "d_mul PInf PInf = PInf"
| "d_mul NInf NInf = PInf"
| "d_mul PInf NInf = NInf"
| "d_mul NInf PInf = NInf"

fun d_sqrt :: "double \<Rightarrow> double" where
  "d_sqrt (Fin x) = (if x < 0 then NaN else Fin (sqrt x))"
| "d_sqrt PInf = PInf"
| "d_sqrt NInf = NaN"
| "d_sqrt NaN = NaN"

text \<open>\<open>pow(x, n)\<close> for a whole exponent, as repeated multiplication.\<close>

definition d_pow :: "double \<Rightarrow> nat \<Rightarrow> double" where
  "d_pow x n = fold (\<lambda>i acc. d_mul acc x) [0..<n] (Fin 1)"

fun d_less :: "double \<Rightarrow> double \<Rightarrow> bool" where
  "d_less (Fin x) (Fin y) = (x < y)"
| "d_less NaN b = False"
| "d_less a NaN = False"
| "d_less a NInf = False"
| "d_less PInf b = False"
| "d_less NInf b = True"
| "d_less a PInf = True"

fun d_eq :: "double \<Rightarrow> double \<Rightarrow> bool" where
  "d_eq (Fin x) (Fin y) = (x = y)"
| "d_eq PInf PInf = True"
| "d_eq NInf NInf = True"
| "d_eq a b = False"

definition d_greater :: "double \<Rightarrow> double \<Rightarrow> bool" where
  "d_greater a b = d_less b a"

definition d_ge :: "double \<Rightarrow> double \<Rightarrow> bool" where
  "d_ge a b = (d_less b a \<or> d_eq a b)"

section \<open>Geometry primitives\<close>

text \<open>\<open>struct rectT\<close>: the arrays \<open>min[NUM_DIMS]\<close> and \<open>max[NUM_DIMS]\<close>.\<close>

datatype rectT = Rect (min_r: "real list") (max_r: "real list")

definition min_d :: "real \<Rightarrow> real \<Rightarrow> real" where
  "min_d a b = (if a < b then a else b)"

definition max_d :: "real \<Rightarrow> real \<Rightarrow> real" where
  "max_d a b = (if a > b then a else b)"

text \<open>\<open>overlap\<close>: the loop returns 0 at the first separated dimension, 1 otherwise.\<close>

definition overlap :: "nat \<Rightarrow> rectT \<Rightarrow> rectT \<Rightarrow> bool" where
  "overlap d rectA rectB =
     list_all (\<lambda>index. \<not> (min_r rectA ! index > max_r rectB ! index \<or>
                          min_r rectB ! index > max_r rectA ! index)) [0..<d]"

text \<open>The result of \<open>memset(&rect, 0, sizeof(rectT))\<close>.\<close>

definition zeroRect :: "nat \<Rightarrow> rectT" where
  "zeroRect d = Rect (replicate d 0) (replicate d 0)"

text \<open>
  \<open>combineRect\<close>: the loop bound in the source is the literal \<open>2\<close>, not \<open>NUM_DIMS\<close>;
  the other coordinates keep the zero of the \<open>memset\<close>.
\<close>

definition combineRect :: "nat \<Rightarrow> rectT \<Rightarrow> rectT \<Rightarrow> rectT" where
  "combineRect d rectA rectB =
     fold (\<lambda>index newRect.
             Rect ((min_r newRect)[index := min_d (min_r rectA ! index) (min_r rectB ! index)])
                  ((max_r newRect)[index := max_d (max_r rectA ! index) (max_r rectB ! index)]))
          [0..<2] (zeroRect d)"

definition rectVolume :: "rectT \<Rightarrow> double" where
  "rectVolume r =
     fold (\<lambda>index volume. d_mul volume (d_sub (Fin (max_r r ! index)) (Fin (min_r r ! index))))
          [0..<2] (Fin 1)"

definition rectSphericalVolume :: "nat \<Rightarrow> rectT \<Rightarrow> double" where
  "rectSphericalVolume d r =
     (let sumOfSquares =
            fold (\<lambda>index s.
                    let halfExtent = d_mul (d_sub (Fin (max_r r ! index)) (Fin (min_r r ! index)))
                                           (Fin 0.5)
                    in d_add s (d_mul halfExtent halfExtent)) [0..<2] (Fin 0);
          radius = d_sqrt sumOfSquares;
          unit = Fin (UNIT_SPHERE_VOLUME d)
      in if d = 2 then d_mul (d_mul radius radius) unit
         else if d = 3 then d_mul (d_mul (d_mul radius radius) radius) unit
         else if d = 4 then d_mul (d_mul (d_mul (d_mul radius radius) radius) radius) unit
         else d_mul (d_pow radius d) unit)"

definition calcRectVolume :: "nat \<Rightarrow> rectT \<Rightarrow> double" where
  "calcRectVolume d r =
     (if USE_SPHERICAL_VOLUME then rectSphericalVolume d r else rectVolume r)"

section \<open>Nodes, branches and the operations of the tree\<close>

datatype nodeT = Node (level: int) (branch: "branchT list")
  and branchT = Branch (rect: rectT) (child: "nodeT option") (item: nat)

abbreviation count_n :: "nodeT \<Rightarrow> nat" where
  "count_n node \<equiv> length (branch node)"

lemma size_child_list [termination_simp]:
  "b \<in> set bs \<Longrightarrow> child b = Some c \<Longrightarrow> size c < Suc (size_list size bs)"
proof (induction bs)
  case Nil
  then show ?case by simp
next
  case (Cons a bs)
  then show ?case by (cases b) auto
qed

lemma size_child_mem [termination_simp]:
  "b \<in> set (branch n) \<Longrightarrow> child b = Some c \<Longrightarrow> size c < size n"
  using size_child_list [of b "branch n" c] by (cases n) simp

lemma size_child_nth [termination_simp]:
  "i < length (branch n) \<Longrightarrow> child (branch n ! i) = Some c \<Longrightarrow> size c < size n"
  using size_child_mem [of "branch n ! i" n c] by simp

definition disconnectBranch :: "nodeT \<Rightarrow> nat \<Rightarrow> nodeT" where
  "disconnectBranch node index =
     Node (level node) (butlast ((branch node)[index := branch node ! (count_n node - 1)]))"

text \<open>
  \<open>search\<close>: a null child counts nothing. The counter of the source is an \<open>int\<close>; the
  model counts in the integers, which is the same below \<open>2^31\<close> matches.
\<close>

fun search :: "nat \<Rightarrow> nodeT \<Rightarrow> rectT \<Rightarrow> int" where
  "search d node r =
     (if level node > 0 then
        fold (\<lambda>b counter. if overlap d r (rect b)
                           then counter + (case child b of None \<Rightarrow> 0 | Some c \<Rightarrow> search d c r)
                           else counter)
             (branch node) 0
      else
        fold (\<lambda>b counter. if overlap d r (rect b) then counter + 1 else counter)
             (branch node) 0)"

definition nodeCover :: "nat \<Rightarrow> nodeT \<Rightarrow> rectT" where
  "nodeCover d node =
     snd (fold (\<lambda>b (firstTime, r).
                  if firstTime then (False, rect b) else (False, combineRect d r (rect b)))
               (branch node) (True, zeroRect d))"

record partitionVarsT =
  partition_pv :: "int list"
  total_pv :: nat
  minFill :: nat
  taken :: "bool list"
  count_pv :: "nat \<times> nat"
  cover :: "rectT \<times> rectT"
  area :: "double \<times> double"
  branchBuf :: "branchT list"
  branchCount :: nat
  coverSplit :: rectT
  coverSplitArea :: double

definition at2 :: "int \<Rightarrow> 'a \<times> 'a \<Rightarrow> 'a" where
  "at2 grp p = (if grp = 0 then fst p else snd p)"

definition upd2 :: "int \<Rightarrow> 'a \<Rightarrow> 'a \<times> 'a \<Rightarrow> 'a \<times> 'a" where
  "upd2 grp v p = (if grp = 0 then (v, snd p) else (fst p, v))"

definition zeroBranch :: "nat \<Rightarrow> branchT" where
  "zeroBranch d = Branch (zeroRect d) None 0"

definition zeroParVars :: "nat \<Rightarrow> partitionVarsT" where
  "zeroParVars d =
     \<lparr>partition_pv = replicate (MAX_NODES + 1) 0, total_pv = 0, minFill = 0,
      taken = replicate (MAX_NODES + 1) False, count_pv = (0, 0),
      cover = (zeroRect d, zeroRect d), area = (Fin 0, Fin 0),
      branchBuf = replicate (MAX_NODES + 1) (zeroBranch d), branchCount = 0,
      coverSplit = zeroRect d, coverSplitArea = Fin 0\<rparr>"

definition getBranches :: "nat \<Rightarrow> nodeT \<Rightarrow> branchT \<Rightarrow> partitionVarsT \<Rightarrow> nodeT \<times> partitionVarsT" where
  "getBranches d node b parVars =
     (let buf = (fold (\<lambda>index buf. buf[index := branch node ! index]) [0..<MAX_NODES]
                      (branchBuf parVars))[MAX_NODES := b];
          cs = fold (\<lambda>index cs. combineRect d cs (rect (buf ! index))) [1..<MAX_NODES + 1]
                    (rect (buf ! 0))
      in (Node (- 1) [],
          parVars\<lparr>branchBuf := buf, branchCount := MAX_NODES + 1,
                  coverSplit := cs, coverSplitArea := calcRectVolume d cs\<rparr>))"

definition initParVars :: "partitionVarsT \<Rightarrow> nat \<Rightarrow> nat \<Rightarrow> partitionVarsT" where
  "initParVars parVars maxRects minFill' =
     parVars\<lparr>count_pv := (0, 0), area := (Fin 0, Fin 0), total_pv := maxRects, minFill := minFill',
             taken := fold (\<lambda>index t. t[index := False]) [0..<maxRects] (taken parVars),
             partition_pv := fold (\<lambda>index p. p[index := - 1]) [0..<maxRects] (partition_pv parVars)\<rparr>"

definition classify :: "nat \<Rightarrow> nat \<Rightarrow> int \<Rightarrow> partitionVarsT \<Rightarrow> partitionVarsT" where
  "classify d index grp parVars =
     (let cov = (if at2 grp (count_pv parVars) = 0
                 then rect (branchBuf parVars ! index)
                 else combineRect d (rect (branchBuf parVars ! index)) (at2 grp (cover parVars)))
      in parVars\<lparr>partition_pv := (partition_pv parVars)[index := grp],
                 taken := (taken parVars)[index := True],
                 cover := upd2 grp cov (cover parVars),
                 area := upd2 grp (calcRectVolume d cov) (area parVars),
                 count_pv := upd2 grp (at2 grp (count_pv parVars) + 1) (count_pv parVars)\<rparr>)"

definition pickSeeds :: "nat \<Rightarrow> partitionVarsT \<Rightarrow> partitionVarsT" where
  "pickSeeds d parVars =
     (let areas = map (\<lambda>index. calcRectVolume d (rect (branchBuf parVars ! index)))
                      [0..<total_pv parVars];
          (worst, seed0, seed1) =
            fold (\<lambda>indexA st.
                    fold (\<lambda>indexB (worst, seed0, seed1).
                            let oneRect = combineRect d (rect (branchBuf parVars ! indexA))
                                                        (rect (branchBuf parVars ! indexB));
                                waste = d_sub (d_sub (calcRectVolume d oneRect) (areas ! indexA))
                                              (areas ! indexB)
                            in if d_greater waste worst then (waste, indexA, indexB)
                               else (worst, seed0, seed1))
                         [indexA + 1..<total_pv parVars] st)
                 [0..<total_pv parVars - 1] (d_sub (d_neg (coverSplitArea parVars)) (Fin 1), 0, 0)
      in classify d seed1 1 (classify d seed0 0 parVars))"

text \<open>
  One pass of the \<open>for\<close> loop inside the \<open>while\<close> loop of \<open>choosePartition\<close>. The
  variables \<open>group\<close>, \<open>chosen\<close> and \<open>betterGroup\<close> are declared outside the \<open>while\<close> loop:
  a pass that updates none of them leaves the values of the pass before.
\<close>

definition pickNext ::
  "nat \<Rightarrow> partitionVarsT \<Rightarrow> int \<times> nat \<times> int \<Rightarrow> double \<times> int \<times> nat \<times> int" where
  "pickNext d parVars st =
     fold (\<lambda>index (biggestDiff, grp, chosen, betterGroup).
             if \<not> taken parVars ! index then
               let curRect = rect (branchBuf parVars ! index);
                   rect0 = combineRect d curRect (fst (cover parVars));
                   rect1 = combineRect d curRect (snd (cover parVars));
                   growth0 = d_sub (calcRectVolume d rect0) (fst (area parVars));
                   growth1 = d_sub (calcRectVolume d rect1) (snd (area parVars));
                   diff0 = d_sub growth1 growth0;
                   grp' = (if d_ge diff0 (Fin 0) then 0 else 1);
                   diff = (if d_ge diff0 (Fin 0) then diff0 else d_neg diff0)
               in if d_greater diff biggestDiff then (diff, grp', index, grp')
                  else if d_eq diff biggestDiff \<and>
                          at2 grp' (count_pv parVars) < at2 betterGroup (count_pv parVars)
                  then (biggestDiff, grp', index, grp')
                  else (biggestDiff, grp', chosen, betterGroup)
             else (biggestDiff, grp, chosen, betterGroup))
          [0..<total_pv parVars] (Fin (- 1), st)"

function chooseLoop ::
  "nat \<Rightarrow> partitionVarsT \<Rightarrow> int \<times> nat \<times> int \<Rightarrow> partitionVarsT" where
  "chooseLoop d parVars st =
     (if fst (count_pv parVars) + snd (count_pv parVars) < total_pv parVars \<and>
         fst (count_pv parVars) < total_pv parVars - minFill parVars \<and>
         snd (count_pv parVars) < total_pv parVars - minFill parVars
      then (case pickNext d parVars st of
              (biggestDiff, grp, chosen, betterGroup) \<Rightarrow>
                chooseLoop d (classify d chosen betterGroup parVars) (grp, chosen, betterGroup))
      else parVars)"
  by pat_completeness auto
termination
  by (relation "measure (\<lambda>(d, pv, st). total_pv pv - (fst (count_pv pv) + snd (count_pv pv)))")
     (auto simp: classify_def Let_def upd2_def at2_def)

declare chooseLoop.simps [simp del]

definition choosePartition :: "nat \<Rightarrow> partitionVarsT \<Rightarrow> nat \<Rightarrow> partitionVarsT" where
  "choosePartition d parVars minFill' =
     (let pv1 = initParVars parVars (branchCount parVars) minFill';
          pv2 = pickSeeds d pv1;
          pv3 = chooseLoop d pv2 (0, 0, 0)
      in if fst (count_pv pv3) + snd (count_pv pv3) < total_pv pv3 then
           let grp = (if fst (count_pv pv3) \<ge> total_pv pv3 - minFill pv3 then 1 else 0)
           in fold (\<lambda>index pv. if \<not> taken pv ! index then classify d index grp pv else pv)
                   [0..<total_pv pv3] pv3
         else pv3)"

text \<open>\<open>addBranch(branch, node, NULL)\<close>: the call made where no split may happen.\<close>

definition addBranch_null :: "branchT \<Rightarrow> nodeT \<Rightarrow> nodeT option" where
  "addBranch_null b node =
     (if count_n node < MAX_NODES then Some (Node (level node) (branch node @ [b])) else None)"

definition loadNodes :: "nodeT \<Rightarrow> nodeT \<Rightarrow> partitionVarsT \<Rightarrow> (nodeT \<times> nodeT) option" where
  "loadNodes nodeA nodeB parVars =
     fold (\<lambda>index acc.
             case acc of None \<Rightarrow> None
             | Some (nodeA, nodeB) \<Rightarrow>
                 if partition_pv parVars ! index = 0 then
                   (case addBranch_null (branchBuf parVars ! index) nodeA of
                      None \<Rightarrow> None | Some nodeA' \<Rightarrow> Some (nodeA', nodeB))
                 else if partition_pv parVars ! index = 1 then
                   (case addBranch_null (branchBuf parVars ! index) nodeB of
                      None \<Rightarrow> None | Some nodeB' \<Rightarrow> Some (nodeA, nodeB'))
                 else Some (nodeA, nodeB))
          [0..<total_pv parVars] (Some (nodeA, nodeB))"

definition splitNode :: "nat \<Rightarrow> nodeT \<Rightarrow> branchT \<Rightarrow> (nodeT \<times> nodeT) option" where
  "splitNode d node b =
     (let lvl = level node;
          (node1, parVars) = getBranches d node b (zeroParVars d);
          parVars' = choosePartition d parVars MIN_NODES;
          newNode = Node lvl [];
          node2 = Node lvl (branch node1)
      in loadNodes node2 newNode parVars')"

definition addBranch :: "nat \<Rightarrow> branchT \<Rightarrow> nodeT \<Rightarrow> (nodeT \<times> nodeT option) option" where
  "addBranch d b node =
     (if count_n node < MAX_NODES then Some (Node (level node) (branch node @ [b]), None)
      else (case splitNode d node b of
              None \<Rightarrow> None
            | Some (node', newNode) \<Rightarrow> Some (node', Some newNode)))"

definition pickBranch :: "nat \<Rightarrow> rectT \<Rightarrow> nodeT \<Rightarrow> nat" where
  "pickBranch d r node =
     (case fold (\<lambda>index (firstTime, bestIncr, bestArea, best).
                   let curRect = rect (branch node ! index);
                       area' = calcRectVolume d curRect;
                       tempRect = combineRect d r curRect;
                       increase = d_sub (calcRectVolume d tempRect) area'
                   in if d_less increase bestIncr \<or> firstTime then (False, increase, area', index)
                      else if d_eq increase bestIncr \<and> d_less area' bestArea
                      then (False, increase, area', index)
                      else (firstTime, bestIncr, bestArea, best))
                [0..<count_n node] (True, Fin (- 1), Fin 0, 0)
      of (firstTime, bestIncr, bestArea, best) \<Rightarrow> best)"

definition set_branch :: "nodeT \<Rightarrow> nat \<Rightarrow> branchT \<Rightarrow> nodeT" where
  "set_branch node index b = Node (level node) ((branch node)[index := b])"

text \<open>
  \<open>insertRectRec\<close> returns the node as updated and, after a split, the new node. Called on
  a null child it returns 0 and stores nothing: the caller then only enlarges the
  rectangle of the branch. On an internal node without branches \<open>pickBranch\<close> answers 0
  and the source reads slot 0 of the array, which is no branch of the node; the model
  stops there (\<open>None\<close>).
\<close>

function insertRectRec ::
  "nat \<Rightarrow> rectT \<Rightarrow> nat \<Rightarrow> nodeT \<Rightarrow> int \<Rightarrow> (nodeT \<times> nodeT option) option" where
  "insertRectRec d r itm node lvl =
     (if level node > lvl then
        (let index = pickBranch d r node in
         if index < count_n node then
           (let b = branch node ! index in
            case child b of
              None \<Rightarrow> Some (set_branch node index (Branch (combineRect d r (rect b)) None (item b)), None)
            | Some c \<Rightarrow>
               (case insertRectRec d r itm c lvl of
                  None \<Rightarrow> None
                | Some (c', None) \<Rightarrow>
                    Some (set_branch node index
                            (Branch (combineRect d r (rect b)) (Some c') (item b)), None)
                | Some (c', Some otherNode) \<Rightarrow>
                    addBranch d (Branch (nodeCover d otherNode) (Some otherNode) 0)
                      (set_branch node index (Branch (nodeCover d c') (Some c') (item b)))))
         else None)
      else if level node = lvl then addBranch d (Branch r None itm) node
      else Some (node, None))"
  by pat_completeness auto
termination
  by (relation "measure (\<lambda>(d, r, itm, node, lvl). size node)") (auto simp: size_child_nth)

declare insertRectRec.simps [simp del]

definition insertRect ::
  "nat \<Rightarrow> rectT \<Rightarrow> nat \<Rightarrow> nodeT option \<Rightarrow> int \<Rightarrow> (int \<times> nodeT option) option" where
  "insertRect d r itm rt lvl =
     (case rt of
        None \<Rightarrow> Some (0, None)
      | Some root0 \<Rightarrow>
         (case insertRectRec d r itm root0 lvl of
            None \<Rightarrow> None
          | Some (root1, None) \<Rightarrow> Some (0, Some root1)
          | Some (root1, Some newNode) \<Rightarrow>
              (case addBranch_null (Branch (nodeCover d root1) (Some root1) 0)
                                   (Node (level root1 + 1) []) of
                 None \<Rightarrow> None
               | Some newRoot \<Rightarrow>
                  (case addBranch_null (Branch (nodeCover d newNode) (Some newNode) 0) newRoot of
                     None \<Rightarrow> None
                   | Some newRoot' \<Rightarrow> Some (1, Some newRoot')))))"

fun countRec :: "nodeT \<Rightarrow> int \<Rightarrow> int option" where
  "countRec node counter =
     (if level node > 0 then
        fold (\<lambda>b acc. case acc of None \<Rightarrow> None
                       | Some cnt \<Rightarrow> (case child b of None \<Rightarrow> None | Some c \<Rightarrow> countRec c cnt))
             (branch node) (Some counter)
      else Some (counter + int (count_n node)))"

fun leafLoop :: "nat \<Rightarrow> branchT list \<Rightarrow> branchT list \<Rightarrow> nat option" where
  "leafLoop itm done [] = None"
| "leafLoop itm done (b # rest) =
     (if item b = itm then Some (length done) else leafLoop itm (done @ [b]) rest)"

fun removeRectRec ::
  "nat \<Rightarrow> rectT \<Rightarrow> nat \<Rightarrow> nodeT \<Rightarrow> nodeT list \<Rightarrow> int \<times> nodeT \<times> nodeT list"
and removeLoop ::
  "nat \<Rightarrow> rectT \<Rightarrow> nat \<Rightarrow> int \<Rightarrow> branchT list \<Rightarrow> branchT list \<Rightarrow> nodeT list
     \<Rightarrow> int \<times> nodeT \<times> nodeT list"
where
  "removeRectRec d r itm (Node lvl bs) listNode =
     (if lvl > 0 then removeLoop d r itm lvl [] bs listNode
      else (case leafLoop itm [] bs of
              Some index \<Rightarrow> (0, disconnectBranch (Node lvl bs) index, listNode)
            | None \<Rightarrow> (1, Node lvl bs, listNode)))"
| "removeLoop d r itm lvl done [] listNode = (1, Node lvl done, listNode)"
| "removeLoop d r itm lvl done (Branch br None bi # rest) listNode =
     removeLoop d r itm lvl (done @ [Branch br None bi]) rest listNode"
| "removeLoop d r itm lvl done (Branch br (Some c) bi # rest) listNode =
     (if overlap d r br then
        (case removeRectRec d r itm c listNode of
           (res, c', listNode') \<Rightarrow>
             if res = 0 then
               (if count_n c' \<ge> MIN_NODES then
                  (0, Node lvl (done @ Branch (nodeCover d c') (Some c') bi # rest), listNode')
                else
                  (0, disconnectBranch (Node lvl (done @ Branch br (Some c') bi # rest)) (length done),
                   c' # listNode'))
             else removeLoop d r itm lvl (done @ [Branch br (Some c') bi]) rest listNode')
      else removeLoop d r itm lvl (done @ [Branch br (Some c) bi]) rest listNode)"

fun reinsertBranches :: "nat \<Rightarrow> nodeT \<Rightarrow> branchT list \<Rightarrow> nodeT option \<Rightarrow> nodeT option option" where
  "reinsertBranches d tempNode [] rt = Some rt"
| "reinsertBranches d tempNode (b # rest) rt =
     (case insertRect d (rect b) (item b) rt (level tempNode) of
        None \<Rightarrow> None
      | Some (split, rt') \<Rightarrow> reinsertBranches d tempNode rest rt')"

fun reinsertAll :: "nat \<Rightarrow> nodeT list \<Rightarrow> nodeT option \<Rightarrow> nodeT option option" where
  "reinsertAll d [] rt = Some rt"
| "reinsertAll d (tempNode # rest) rt =
     (case reinsertBranches d tempNode (branch tempNode) rt of
        None \<Rightarrow> None
      | Some rt' \<Rightarrow> reinsertAll d rest rt')"

definition removeRect ::
  "nat \<Rightarrow> rectT \<Rightarrow> nat \<Rightarrow> nodeT option \<Rightarrow> (int \<times> nodeT option) option" where
  "removeRect d r itm rt =
     (case rt of
        None \<Rightarrow> Some (1, None)
      | Some root0 \<Rightarrow>
         (case removeRectRec d r itm root0 [] of
            (res, root1, reInsertList) \<Rightarrow>
              if res = 0 then
                (case reinsertAll d reInsertList (Some root1) of
                   None \<Rightarrow> None
                 | Some None \<Rightarrow> None
                 | Some (Some root2) \<Rightarrow>
                     if count_n root2 = 1 \<and> level root2 > 0
                     then Some (0, child (branch root2 ! 0))
                     else Some (0, Some root2))
              else Some (1, Some root1)))"

section \<open>Notions used to state the properties\<close>

text \<open>
  A rectangle is well formed when \<open>min[i] \<le> max[i]\<close> on each of the \<open>d\<close> dimensions.
  The size measure and \<open>combineRect\<close> read the first two coordinates only, which
  \<open>wf2\<close> and \<open>covers\<close> (the first rectangle contains the second) follow.
\<close>

definition wellFormed :: "nat \<Rightarrow> rectT \<Rightarrow> bool" where
  "wellFormed d r = list_all (\<lambda>i. min_r r ! i \<le> max_r r ! i) [0..<d]"

definition wf2 :: "rectT \<Rightarrow> bool" where
  "wf2 r = (min_r r ! 0 \<le> max_r r ! 0 \<and> min_r r ! 1 \<le> max_r r ! 1)"

definition covers :: "rectT \<Rightarrow> rectT \<Rightarrow> bool" where
  "covers s r = (min_r s ! 0 \<le> min_r r ! 0 \<and> max_r r ! 0 \<le> max_r s ! 0 \<and>
                 min_r s ! 1 \<le> min_r r ! 1 \<and> max_r r ! 1 \<le> max_r s ! 1)"

text \<open>
  The operations a caller has: \<open>Insert\<close> is \<open>insertRect\<close> at level 0, \<open>Delete\<close> is
  \<open>removeRect\<close>. A run starts from a root and stops at the first operation that leaves the
  model (\<open>None\<close>).
\<close>

datatype opT = Insert rectT nat | Delete rectT nat

fun apply_op :: "nat \<Rightarrow> nodeT option \<Rightarrow> opT \<Rightarrow> nodeT option option" where
  "apply_op d rt (Insert r itm) = map_option snd (insertRect d r itm rt 0)"
| "apply_op d rt (Delete r itm) = map_option snd (removeRect d r itm rt)"

fun run_ops :: "nat \<Rightarrow> opT list \<Rightarrow> nodeT option \<Rightarrow> nodeT option option" where
  "run_ops d [] rt = Some rt"
| "run_ops d (x # xs) rt =
     (case apply_op d rt x of None \<Rightarrow> None | Some rt' \<Rightarrow> run_ops d xs rt')"

definition emptyRoot :: "nodeT option" where
  "emptyRoot = Some (Node 0 [])"

text \<open>
  The fill invariant: every node below the given one (reached through non-null child
  pointers) holds between \<open>MIN_NODES\<close> and \<open>MAX_NODES\<close> branches.
\<close>

fun fill_ok :: "nodeT \<Rightarrow> bool" and fill_ok_b :: "branchT \<Rightarrow> bool" where
  "fill_ok (Node lvl bs) = list_all fill_ok_b bs"
| "fill_ok_b (Branch r c i) =
     (case c of None \<Rightarrow> True
      | Some n \<Rightarrow> MIN_NODES \<le> count_n n \<and> count_n n \<le> MAX_NODES \<and> fill_ok n)"

definition balanced :: "nodeT option \<Rightarrow> bool" where
  "balanced rt = (case rt of None \<Rightarrow> True | Some r \<Rightarrow> count_n r \<le> MAX_NODES \<and> fill_ok r)"

text \<open>Fill, levels and well-formed rectangles together.\<close>

fun node_ok :: "nodeT \<Rightarrow> bool" and branch_ok :: "branchT \<Rightarrow> bool" where
  "node_ok (Node lvl bs) = (0 \<le> lvl \<and> list_all branch_ok bs)"
| "branch_ok (Branch r c i) =
     (wf2 r \<and> (case c of None \<Rightarrow> True
               | Some n \<Rightarrow> MIN_NODES \<le> count_n n \<and> count_n n \<le> MAX_NODES \<and> node_ok n))"

definition root_ge :: "nat \<Rightarrow> nodeT option \<Rightarrow> bool" where
  "root_ge k rt = (case rt of None \<Rightarrow> True
                   | Some r \<Rightarrow> count_n r \<le> MAX_NODES \<and> node_ok r \<and> (0 < level r \<longrightarrow> k \<le> count_n r))"

text \<open>
  The leaf entries below a node, as a multiset of (rectangle, payload) pairs. As in the
  code, a node with \<open>level > 0\<close> is internal (its branches are followed through their
  child pointers) and any other node is a leaf.
\<close>

fun entries :: "nodeT \<Rightarrow> (rectT \<times> nat) multiset" where
  "entries (Node lvl bs) =
     (if 0 < lvl then sum_list (map (\<lambda>b. case child b of None \<Rightarrow> {#} | Some c \<Rightarrow> entries c) bs)
      else mset (map (\<lambda>b. (rect b, item b)) bs))"

text \<open>
  \<open>has_match\<close>: some leaf entry of the tree has a stored rectangle that overlaps the given
  one and the given payload. \<open>findable\<close>: some leaf reached through internal branches
  whose rectangles overlap the given one holds an entry with the given payload.
\<close>

fun has_match :: "nat \<Rightarrow> rectT \<Rightarrow> nat \<Rightarrow> nodeT \<Rightarrow> bool" where
  "has_match d r itm (Node lvl bs) =
     (if 0 < lvl then list_ex (\<lambda>b. case child b of None \<Rightarrow> False | Some c \<Rightarrow> has_match d r itm c) bs
      else list_ex (\<lambda>b. overlap d r (rect b) \<and> item b = itm) bs)"

fun findable :: "nat \<Rightarrow> rectT \<Rightarrow> nat \<Rightarrow> nodeT \<Rightarrow> bool" where
  "findable d r itm (Node lvl bs) =
     (if 0 < lvl then list_ex (\<lambda>b. overlap d r (rect b) \<and>
                          (case child b of None \<Rightarrow> False | Some c \<Rightarrow> findable d r itm c)) bs
      else list_ex (\<lambda>b. item b = itm) bs)"

declare entries.simps [simp del]

definition entries_child :: "branchT \<Rightarrow> (rectT \<times> nat) multiset" where
  "entries_child b = (case child b of None \<Rightarrow> {#} | Some c \<Rightarrow> entries c)"

definition leaf_one :: nodeT where
  "leaf_one = Node 0 [Branch (Rect [0, 0] [1, 1]) None 7]"

definition leaf_two :: nodeT where
  "leaf_two = Node 0 [Branch (Rect [0, 0] [1, 1]) None 1, Branch (Rect [2, 2] [3, 3]) None 2]"

text \<open>
  The shape of a tree built by insertions: levels decrease by one from a node to its
  children, every branch of an internal node has a child with at least one branch, and
  its rectangle contains the rectangles of the child's branches.
\<close>

fun tree_ok :: "nodeT \<Rightarrow> bool" where
  "tree_ok (Node lvl bs) =
     (0 \<le> lvl \<and>
      list_all (\<lambda>b. if 0 < lvl
                     then (case child b of None \<Rightarrow> False
                           | Some c \<Rightarrow> level c = lvl - 1 \<and> 1 \<le> count_n c \<and>
                               list_all (\<lambda>b'. covers (rect b) (rect b')) (branch c) \<and> tree_ok c)
                     else True) bs)"

text \<open>
  \<open>pickBranch\<close> reads only the rectangles of the branches; \<open>pickBranch_rects\<close> is the same
  loop over the list of rectangles, with the loop index and the four loop variables as
  arguments. It is used to evaluate \<open>pickBranch\<close> on concrete nodes.
\<close>

fun pickBranch_rects ::
  "nat \<Rightarrow> rectT \<Rightarrow> rectT list \<Rightarrow> nat \<Rightarrow> bool \<Rightarrow> double \<Rightarrow> double \<Rightarrow> nat \<Rightarrow> nat" where
  "pickBranch_rects d r [] index firstTime bestIncr bestArea best = best"
| "pickBranch_rects d r (curRect # rest) index firstTime bestIncr bestArea best =
     (if d_less (d_sub (calcRectVolume d (combineRect d r curRect)) (calcRectVolume d curRect)) bestIncr
         \<or> firstTime
      then pickBranch_rects d r rest (Suc index) False
             (d_sub (calcRectVolume d (combineRect d r curRect)) (calcRectVolume d curRect))
             (calcRectVolume d curRect) index
      else if d_eq (d_sub (calcRectVolume d (combineRect d r curRect)) (calcRectVolume d curRect))
                   bestIncr \<and>
              d_less (calcRectVolume d curRect) bestArea
      then pickBranch_rects d r rest (Suc index) False
             (d_sub (calcRectVolume d (combineRect d r curRect)) (calcRectVolume d curRect))
             (calcRectVolume d curRect) index
      else pickBranch_rects d r rest (Suc index) firstTime bestIncr bestArea best)"

text \<open>
  A tree of height two with 128 entries: two internal nodes at level 1, each with eight
  leaves, each leaf a column of eight unit squares. The first group lies at
  \<open>x = 0, 10, \<dots>, 70\<close>, the second at \<open>x = 1000, 1010, \<dots>, 1070\<close>.
\<close>

definition column_leaf :: "real \<Rightarrow> nat \<Rightarrow> nodeT" where
  "column_leaf x base =
     Node 0 (map (\<lambda>j. Branch (Rect [x, real j] [x + 1, real j + 1]) None (base + j)) [0..<8])"

definition column_branch :: "real \<Rightarrow> nat \<Rightarrow> branchT" where
  "column_branch x base = Branch (Rect [x, 0] [x + 1, 8]) (Some (column_leaf x base)) 0"

definition group_node :: "real \<Rightarrow> nat \<Rightarrow> nodeT" where
  "group_node x0 base0 =
     Node 1 (map (\<lambda>k. column_branch (x0 + 10 * real k) (base0 + 8 * k)) [0..<8])"

definition two_level_tree :: nodeT where
  "two_level_tree =
     Node 2 [Branch (Rect [0, 0] [71, 8]) (Some (group_node 0 1)) 0,
             Branch (Rect [1000, 0] [1071, 8]) (Some (group_node 1000 65)) 0]"

definition after_delete :: nodeT where
  "after_delete =
     Node 1 (branch (group_node 1000 65) @
             [Branch (Rect [70, 0] [71, 8]) None 0, Branch (Rect [0, 0] [11, 8]) None 0,
              Branch (Rect [20, 0] [21, 8]) None 0, Branch (Rect [30, 0] [31, 8]) None 0,
              Branch (Rect [40, 0] [41, 8]) None 0, Branch (Rect [50, 0] [51, 8]) None 0,
              Branch (Rect [60, 0] [61, 8]) None 0])"

text \<open>
  The cover invariant: in an internal node every branch points to a node and its rectangle
  is the covering rectangle \<open>nodeCover\<close> of that node, recursively.
\<close>

fun cover_exact :: "nat \<Rightarrow> nodeT \<Rightarrow> bool" where
  "cover_exact d (Node lvl bs) =
     (if 0 < lvl
      then list_all (\<lambda>b. case child b of None \<Rightarrow> False
                          | Some c \<Rightarrow> rect b = nodeCover d c \<and> cover_exact d c) bs
      else True)"

text \<open>
  A square of side \<open>2^520\<close>: its corners are doubles, the square of its half side is
  not. Seventeen insertions of it, and the full leaf that the first sixteen build.
\<close>

definition huge_square :: rectT where
  "huge_square = Rect [0, 0] [2 ^ 520, 2 ^ 520]"

definition huge_inserts :: "opT list" where
  "huge_inserts = map (\<lambda>i. Insert huge_square (Suc i)) [0..<17]"

definition huge_leaf :: nodeT where
  "huge_leaf = Node 0 (map (\<lambda>i. Branch huge_square None (Suc i)) [0..<16])"

text \<open>
  Eight copies of the unit square at the origin, eight copies of the unit square at
  \<open>x = 100\<close> and the huge square, with the payloads 1 to 17; the full leaf that the
  first sixteen build.
\<close>

definition west_square :: rectT where
  "west_square = Rect [0, 0] [1, 1]"

definition east_square :: rectT where
  "east_square = Rect [100, 0] [101, 1]"

definition cluster_pairs :: "(rectT \<times> nat) list" where
  "cluster_pairs = map (\<lambda>i. (west_square, Suc i)) [0..<8] @
                   map (\<lambda>i. (east_square, Suc i)) [8..<16] @ [(huge_square, 17)]"

definition cluster_leaf :: nodeT where
  "cluster_leaf = Node 0 (map (\<lambda>(r, i). Branch r None i) (take 16 cluster_pairs))"

text \<open>
  The partition state with which \<open>splitNode\<close> calls \<open>pickSeeds\<close>: the buffer \<open>buf\<close> of
  seventeen branches, their covering rectangle \<open>cs\<close> with its size \<open>a\<close>, nothing taken.
\<close>

definition parVars_init :: "nat \<Rightarrow> branchT list \<Rightarrow> rectT \<Rightarrow> double \<Rightarrow> partitionVarsT" where
  "parVars_init d buf cs a =
     \<lparr>partition_pv = replicate 17 (- 1), total_pv = 17, minFill = 8,
      taken = replicate 17 False, count_pv = (0, 0),
      cover = (zeroRect d, zeroRect d), area = (Fin 0, Fin 0),
      branchBuf = buf, branchCount = 17, coverSplit = cs, coverSplitArea = a\<rparr>"

text \<open>The buffers of the two splits, and the trees that the insertions return.\<close>

definition huge_buf :: "branchT list" where
  "huge_buf = map (\<lambda>i. Branch huge_square None (Suc i)) [0..<17]"

definition cluster_buf :: "branchT list" where
  "cluster_buf = map (\<lambda>(r, i). Branch r None i) cluster_pairs"

definition huge_tree :: nodeT where
  "huge_tree =
     Node 1 [Branch huge_square (Some (Node 0 [Branch huge_square None 1])) 0,
             Branch huge_square
               (Some (Node 0 (map (\<lambda>i. Branch huge_square None (Suc i)) [1..<17]))) 0]"

definition cluster_tree :: nodeT where
  "cluster_tree =
     Node 1 [Branch west_square
               (Some (Node 0 (map (\<lambda>i. Branch west_square None (Suc i)) [0..<8]))) 0,
             Branch east_square
               (Some (Node 0 (map (\<lambda>i. Branch east_square None (Suc i)) [8..<16]))) 0]"

section \<open>Facts about the geometry primitives\<close>

lemma min_d_min: "min_d a b = min a b"
  by (simp add: min_d_def min_def)

lemma max_d_max: "max_d a b = max a b"
  by (simp add: max_d_def max_def)

lemma upt_2: "[0..<2] = [0, Suc 0]"
  by (simp add: upt_rec)

lemma combineRect_unfold:
  "combineRect d A B =
     Rect ((replicate d 0)[0 := min (min_r A ! 0) (min_r B ! 0),
                           Suc 0 := min (min_r A ! Suc 0) (min_r B ! Suc 0)])
          ((replicate d 0)[0 := max (max_r A ! 0) (max_r B ! 0),
                           Suc 0 := max (max_r A ! Suc 0) (max_r B ! Suc 0)])"
  by (simp add: combineRect_def zeroRect_def upt_2 min_d_min max_d_max)

text \<open>
  Claim C8. For all rectangles A and B (in particular for well-formed ones),
  \<open>overlap\<close> answers true exactly when \<open>A.min[i] \<le> B.max[i]\<close> and
  \<open>B.min[i] \<le> A.max[i]\<close> on every dimension \<open>i\<close> of the \<open>d\<close> configured ones. Hence
  rectangles that touch at a boundary coordinate overlap, and rectangles with a
  positive gap on some dimension do not.
\<close>

theorem overlap_iff:
  "(overlap d A B \<longleftrightarrow>
      (\<forall>i<d. min_r A ! i \<le> max_r B ! i \<and> min_r B ! i \<le> max_r A ! i))
   \<and> (\<forall>k<d. max_r A ! k < min_r B ! k \<or> max_r B ! k < min_r A ! k \<longrightarrow> \<not> overlap d A B)
   \<and> (\<forall>k<d. max_r A ! k = min_r B ! k \<and> min_r A ! k \<le> max_r B ! k \<and>
            (\<forall>i<d. i \<noteq> k \<longrightarrow> min_r A ! i \<le> max_r B ! i \<and> min_r B ! i \<le> max_r A ! i)
        \<longrightarrow> overlap d A B)"
proof -
  have iff: "overlap d A B \<longleftrightarrow>
      (\<forall>i<d. min_r A ! i \<le> max_r B ! i \<and> min_r B ! i \<le> max_r A ! i)"
    by (auto simp: overlap_def list_all_iff not_less)
  have gap: "\<forall>k<d. max_r A ! k < min_r B ! k \<or> max_r B ! k < min_r A ! k \<longrightarrow> \<not> overlap d A B"
    unfolding iff by (auto simp: not_le)
  have touch: "\<forall>k<d. max_r A ! k = min_r B ! k \<and> min_r A ! k \<le> max_r B ! k \<and>
            (\<forall>i<d. i \<noteq> k \<longrightarrow> min_r A ! i \<le> max_r B ! i \<and> min_r B ! i \<le> max_r A ! i)
        \<longrightarrow> overlap d A B"
    unfolding iff
  proof (intro allI impI)
    fix k i
    assume k: "k < d" and i: "i < d"
      and h: "max_r A ! k = min_r B ! k \<and> min_r A ! k \<le> max_r B ! k \<and>
            (\<forall>i<d. i \<noteq> k \<longrightarrow> min_r A ! i \<le> max_r B ! i \<and> min_r B ! i \<le> max_r A ! i)"
    show "min_r A ! i \<le> max_r B ! i \<and> min_r B ! i \<le> max_r A ! i"
    proof (cases "i = k")
      case True
      with h show ?thesis by simp
    next
      case False
      with h i show ?thesis by blast
    qed
  qed
  from iff gap touch show ?thesis by blast
qed

theorem overlap_iff_witness:
  "overlap 2 (Rect [0, 0] [1, 1]) (Rect [1, 0] [2, 1]) \<and>
   \<not> overlap 2 (Rect [0, 0] [1, 1]) (Rect [2, 0] [3, 1])"
proof -
  have two: "\<And>P. (\<forall>i<2::nat. P i) \<longleftrightarrow> P 0 \<and> P (Suc 0)"
    by (auto simp: less_Suc_eq numeral_2_eq_2)
  have a: "overlap 2 (Rect [0, 0] [1, 1]) (Rect [1, 0] [2, 1])"
    using overlap_iff [of 2 "Rect [0, 0] [1, 1]" "Rect [1, 0] [2, 1]"]
    by (simp add: two)
  have b: "\<not> overlap 2 (Rect [0, 0] [1, 1]) (Rect [2, 0] [3, 1])"
    using overlap_iff [of 2 "Rect [0, 0] [1, 1]" "Rect [2, 0] [3, 1]"]
    by (simp add: two)
  from a b show ?thesis by simp
qed

text \<open>
  Claim C9. The claim asks, for every dimension \<open>i\<close> below the configured \<open>d\<close>, that the
  union has \<open>min[i] = min(A.min[i], B.min[i])\<close> and \<open>max[i] = max(A.max[i], B.max[i])\<close>.
  With \<open>d = 3\<close> the third coordinate of the result of \<open>combineRect\<close> is the zero left by
  \<open>memset\<close>, here for two copies of the unit-offset cube \<open>[1,1,1]-[2,2,2]\<close>.
\<close>

theorem combineRect_third_dimension:
  "min_r (combineRect 3 (Rect [1, 1, 1] [2, 2, 2]) (Rect [1, 1, 1] [2, 2, 2])) ! 2 = 0 \<and>
   max_r (combineRect 3 (Rect [1, 1, 1] [2, 2, 2]) (Rect [1, 1, 1] [2, 2, 2])) ! 2 = 0 \<and>
   min_d (min_r (Rect [1, 1, 1] [2, 2, 2]) ! 2) (min_r (Rect [1, 1, 1] [2, 2, 2]) ! 2) = 1 \<and>
   max_d (max_r (Rect [1, 1, 1] [2, 2, 2]) ! 2) (max_r (Rect [1, 1, 1] [2, 2, 2]) ! 2) = 2"
  by (simp add: combineRect_unfold min_d_def max_d_def numeral_3_eq_3 numeral_2_eq_2)

section \<open>What the deletion descent finds and removes\<close>

lemma leafLoop_range:
  "leafLoop itm done bs = Some i \<Longrightarrow> length done \<le> i \<and> i < length done + length bs"
  by (induction itm "done" bs rule: leafLoop.induct) (auto split: if_splits)

lemma disconnectBranch_fields:
  "level (disconnectBranch node i) = level node"
  "count_n (disconnectBranch node i) = count_n node - 1"
  "set (branch (disconnectBranch node i)) \<subseteq> set (branch node)"
proof -
  show "level (disconnectBranch node i) = level node"
    "count_n (disconnectBranch node i) = count_n node - 1"
    by (simp_all add: disconnectBranch_def)
  show "set (branch (disconnectBranch node i)) \<subseteq> set (branch node)"
  proof (cases "branch node = []")
    case True
    then show ?thesis by (simp add: disconnectBranch_def)
  next
    case False
    then have "branch node ! (count_n node - 1) \<in> set (branch node)" by simp
    then have "set ((branch node)[i := branch node ! (count_n node - 1)]) \<subseteq> set (branch node)"
      using set_update_subset_insert [of "branch node" i] by blast
    then show ?thesis
      by (auto simp: disconnectBranch_def dest: in_set_butlastD)
  qed
qed

lemma mset_disconnect:
  assumes "i < length xs"
  shows "mset (butlast (xs[i := xs ! (length xs - 1)])) = mset xs - {#xs ! i#}"
proof -
  from assms obtain ys l where xs: "xs = ys @ [l]"
    by (cases xs rule: rev_cases) auto
  show ?thesis
  proof (cases "i = length ys")
    case True
    then show ?thesis by (simp add: xs)
  next
    case False
    with assms have i: "i < length ys" by (simp add: xs)
    then have "ys ! i \<in># mset ys" by simp
    then show ?thesis
      using i by (simp add: xs list_update_append nth_append mset_update)
  qed
qed

lemma disconnect_middle:
  "mset (branch (disconnectBranch (Node lvl (done @ b # rest)) (length done))) = mset (done @ rest)"
  using mset_disconnect [of "length done" "done @ b # rest"]
  by (simp add: disconnectBranch_def)

lemma leafLoop_None: "leafLoop itm done bs = None \<longleftrightarrow> (\<forall>b\<in>set bs. item b \<noteq> itm)"
  by (induction itm "done" bs rule: leafLoop.induct) auto

lemma leafLoop_Some:
  "leafLoop itm done bs = Some i \<Longrightarrow> item (bs ! (i - length done)) = itm"
proof (induction itm "done" bs rule: leafLoop.induct)
  case (1 itm "done")
  then show ?case by simp
next
  case (2 itm "done" b rest)
  show ?case
  proof (cases "item b = itm")
    case True
    with 2 show ?thesis by simp
  next
    case False
    with 2 have l: "leafLoop itm (done @ [b]) rest = Some i" by simp
    with leafLoop_range [OF l] 2 False show ?thesis
      by (simp add: nth_Cons')
  qed
qed

definition reach_b :: "nat \<Rightarrow> rectT \<Rightarrow> nat \<Rightarrow> branchT \<Rightarrow> bool" where
  "reach_b d r itm b \<longleftrightarrow>
     overlap d r (rect b) \<and> (case child b of None \<Rightarrow> False | Some c \<Rightarrow> findable d r itm c)"

lemma findable_internal:
  "0 < lvl \<Longrightarrow> findable d r itm (Node lvl bs) \<longleftrightarrow> (\<exists>b\<in>set bs. reach_b d r itm b)"
  by (simp add: list_ex_iff reach_b_def)

lemma removeRectRec_flag:
  "(findable d r itm node \<longrightarrow> fst (removeRectRec d r itm node L) = 0) \<and>
   (\<not> findable d r itm node \<longrightarrow> removeRectRec d r itm node L = (1, node, L))"
  and removeLoop_flag:
  "((\<exists>b\<in>set todo. reach_b d r itm b) \<longrightarrow> fst (removeLoop d r itm lvl done todo L) = 0) \<and>
   (\<not> (\<exists>b\<in>set todo. reach_b d r itm b) \<longrightarrow>
      removeLoop d r itm lvl done todo L = (1, Node lvl (done @ todo), L))"
proof (induction d r itm node L and d r itm lvl "done" todo L rule: removeRectRec_removeLoop.induct)
  case (1 d r itm lvl bs listNode)
  show ?case
  proof (cases "0 < lvl")
    case True
    with 1 show ?thesis by (simp add: list_ex_iff reach_b_def)
  next
    case False
    then show ?thesis
      using leafLoop_None [of itm "[]" bs]
      by (cases "leafLoop itm [] bs") (auto simp: list_ex_iff)
  qed
next
  case (2 d r itm lvl "done" listNode)
  then show ?case by simp
next
  case (3 d r itm lvl "done" br bi rest listNode)
  then show ?case by (simp add: reach_b_def)
next
  case (4 d r itm lvl "done" br c bi rest listNode)
  show ?case
  proof (cases "overlap d r br")
    case False
    with "4.IH"(3) [OF False] show ?thesis by (simp add: reach_b_def)
  next
    case True
    show ?thesis
    proof (cases "findable d r itm c")
      case f: True
      with "4.IH"(1) [OF True] have "fst (removeRectRec d r itm c listNode) = 0" by simp
      then show ?thesis
        using True f by (auto simp: reach_b_def case_prod_beta)
    next
      case nf: False
      with "4.IH"(1) [OF True] have rec: "removeRectRec d r itm c listNode = (1, c, listNode)" by simp
      from "4.IH"(2) [OF True _ _ _, of 1 "(c, listNode)" c listNode] rec
      have "((\<exists>b\<in>set rest. reach_b d r itm b) \<longrightarrow>
               fst (removeLoop d r itm lvl (done @ [Branch br (Some c) bi]) rest listNode) = 0) \<and>
            (\<not> (\<exists>b\<in>set rest. reach_b d r itm b) \<longrightarrow>
               removeLoop d r itm lvl (done @ [Branch br (Some c) bi]) rest listNode
                 = (1, Node lvl ((done @ [Branch br (Some c) bi]) @ rest), listNode))"
        by simp
      then show ?thesis
        using True nf rec by (simp add: reach_b_def)
    qed
  qed
qed

lemma entries_internal:
  "0 < lvl \<Longrightarrow> entries (Node lvl bs) = sum_list (map entries_child bs)"
  by (simp add: entries.simps entries_child_def [abs_def])

lemma entries_leaf:
  "\<not> 0 < lvl \<Longrightarrow> entries (Node lvl bs) = mset (map (\<lambda>b. (rect b, item b)) bs)"
  by (simp add: entries.simps)

lemma entries_mset_cong:
  assumes "mset bs = mset bs'"
  shows "entries (Node lvl bs) = entries (Node lvl bs')"
proof (cases "0 < lvl")
  case True
  have "sum_list (map entries_child bs) = sum_mset (image_mset entries_child (mset bs))"
    by (metis mset_map sum_mset_sum_list)
  also have "\<dots> = sum_mset (image_mset entries_child (mset bs'))"
    by (simp only: assms)
  also have "\<dots> = sum_list (map entries_child bs')"
    by (metis mset_map sum_mset_sum_list)
  finally show ?thesis using True by (simp only: entries_internal)
next
  case False
  have "mset (map (\<lambda>b. (rect b, item b)) bs) = image_mset (\<lambda>b. (rect b, item b)) (mset bs)"
    by simp
  also have "\<dots> = mset (map (\<lambda>b. (rect b, item b)) bs')"
    by (simp add: assms)
  finally show ?thesis using False by (simp add: entries_leaf)
qed

lemma entries_node: "entries (Node (level n) (branch n)) = entries n"
  by simp

lemma removeRectRec_entries:
  "removeRectRec d r itm node L = (0, node', L') \<Longrightarrow>
     \<exists>rr new. L' = new @ L \<and>
       entries node = add_mset (rr, itm) (entries node' + sum_list (map entries new))"
  and removeLoop_entries:
  "0 < lvl \<Longrightarrow> removeLoop d r itm lvl done todo L = (0, node', L') \<Longrightarrow>
     \<exists>rr new. L' = new @ L \<and>
       entries (Node lvl (done @ todo)) = add_mset (rr, itm) (entries node' + sum_list (map entries new))"
proof (induction d r itm node L and d r itm lvl "done" todo L
       arbitrary: node' L' and node' L' rule: removeRectRec_removeLoop.induct)
  case (1 d r itm lvl bs listNode)
  show ?case
  proof (cases "0 < lvl")
    case True
    with "1.IH" [OF True True, of node' L'] "1.prems" show ?thesis by simp
  next
    case False
    from "1.prems" False obtain index where ll: "leafLoop itm [] bs = Some index"
      and n': "node' = disconnectBranch (Node lvl bs) index" and L': "L' = listNode"
      by (cases "leafLoop itm [] bs") auto
    from leafLoop_range [OF ll] have idx: "index < length bs" by simp
    from leafLoop_Some [OF ll] have it: "item (bs ! index) = itm" by simp
    have "mset (branch node') = mset bs - {#bs ! index#}"
      using mset_disconnect [OF idx] by (simp add: n' disconnectBranch_def)
    then have "add_mset (bs ! index) (mset (branch node')) = mset bs"
      using idx by simp
    then have "mset (bs ! index # branch node') = mset bs" by simp
    then have "entries (Node lvl (bs ! index # branch node')) = entries (Node lvl bs)"
      by (rule entries_mset_cong)
    moreover have "entries node' = entries (Node lvl (branch node'))"
      by (simp add: n' disconnectBranch_def)
    ultimately have "entries (Node lvl bs) = add_mset (rect (bs ! index), itm) (entries node')"
      using False it by (simp add: entries_leaf)
    then show ?thesis using L' by auto
  qed
next
  case (2 d r itm lvl "done" listNode)
  then show ?case by simp
next
  case (3 d r itm lvl "done" br bi rest listNode)
  from "3.IH" [OF "3.prems"(1), of node' L'] "3.prems" show ?case by simp
next
  case (4 d r itm lvl "done" br c bi rest listNode)
  note lvl = "4.prems"(1)
  show ?case
  proof (cases "overlap d r br")
    case False
    from "4.IH"(3) [OF False lvl, of node' L'] "4.prems"(2) False show ?thesis by simp
  next
    case True
    obtain rc c' L1 where rec: "removeRectRec d r itm c listNode = (rc, c', L1)"
      by (cases "removeRectRec d r itm c listNode") auto
    show ?thesis
    proof (cases "rc = 0")
      case False
      have "\<not> findable d r itm c"
        using removeRectRec_flag [of d r itm c listNode] rec False by auto
      with removeRectRec_flag [of d r itm c listNode] rec have same: "c' = c" "L1 = listNode" "rc = 1"
        by simp_all
      from "4.IH"(2) [OF True _ _ _ lvl, of rc "(c', L1)" c' L1 node' L'] rec False "4.prems"(2) True
      show ?thesis by (simp add: same)
    next
      case rc0: True
      from "4.IH"(1) [OF True, of c' L1] rec rc0
      obtain rr new1 where L1: "L1 = new1 @ listNode"
        and ec: "entries c = add_mset (rr, itm) (entries c' + sum_list (map entries new1))"
        by auto
      have whole: "entries (Node lvl (done @ Branch br (Some c) bi # rest))
                     = sum_list (map entries_child done) + entries c + sum_list (map entries_child rest)"
        using lvl by (simp add: entries_internal) (simp add: entries_child_def)
      show ?thesis
      proof (cases "MIN_NODES \<le> count_n c'")
        case True
        with "4.prems"(2) \<open>overlap d r br\<close> rec rc0
        have n': "node' = Node lvl (done @ Branch (nodeCover d c') (Some c') bi # rest)" and "L' = L1"
          by simp_all
        have "entries node' = sum_list (map entries_child done) + entries c' + sum_list (map entries_child rest)"
          using lvl by (simp add: n' entries_internal) (simp add: entries_child_def)
        then show ?thesis
          using whole ec L1 \<open>L' = L1\<close> by (intro exI [of _ rr] exI [of _ new1]) simp
      next
        case False
        let ?n = "Node lvl (done @ Branch br (Some c') bi # rest)"
        from "4.prems"(2) \<open>overlap d r br\<close> rec rc0 False
        have n': "node' = disconnectBranch ?n (length done)" and L': "L' = c' # L1"
          by simp_all
        have "entries node' = entries (Node lvl (branch node'))"
          by (simp add: n' disconnectBranch_def)
        also have "\<dots> = entries (Node lvl (done @ rest))"
          unfolding n' by (rule entries_mset_cong) (rule disconnect_middle)
        also have "\<dots> = sum_list (map entries_child done) + sum_list (map entries_child rest)"
          using lvl by (simp add: entries_internal)
        finally show ?thesis
          using whole ec L1 L' by (intro exI [of _ rr] exI [of _ "c' # new1"]) simp
      qed
    qed
  qed
qed

lemma removeRect_flag:
  assumes "removeRect d r itm (Some node) = Some (rc, rt')"
  shows "rc = 0 \<longleftrightarrow> findable d r itm node"
proof -
  obtain res root1 L where rec: "removeRectRec d r itm node [] = (res, root1, L)"
    by (cases "removeRectRec d r itm node []") auto
  have f: "res = 0 \<longleftrightarrow> findable d r itm node"
    using removeRectRec_flag [of d r itm node "[]"] rec by auto
  show ?thesis
  proof (cases "res = 0")
    case True
    with assms rec have "rc = 0"
      by (auto simp: removeRect_def split: option.splits if_splits)
    with True f show ?thesis by simp
  next
    case False
    with assms rec have "rc = 1"
      by (simp add: removeRect_def)
    with False f show ?thesis by simp
  qed
qed

lemma removeRect_not_found:
  assumes "\<not> findable d r itm node"
  shows "removeRect d r itm (Some node) = Some (1, Some node)"
  using removeRectRec_flag [of d r itm node "[]"] assms by (simp add: removeRect_def)

lemma findable_payload:
  assumes "findable d r itm node"
  shows "itm \<in> snd ` set_mset (entries node)"
proof -
  from removeRectRec_flag [of d r itm node "[]"] assms
  obtain node' L' where "removeRectRec d r itm node [] = (0, node', L')"
    by (cases "removeRectRec d r itm node []") auto
  from removeRectRec_entries [OF this] obtain rr new where
    "entries node = add_mset (rr, itm) (entries node' + sum_list (map entries new))"
    by blast
  then have "(rr, itm) \<in># entries node" by simp
  then show ?thesis by force
qed

text \<open>
  Claim C1, as the code has it. The claim's last clause fails: a leaf entry whose payload
  equals the argument is removed although its stored rectangle does not overlap the
  argument rectangle (here on a root that is a leaf).
\<close>

theorem delete_ignores_stored_rectangle:
  "\<not> overlap 2 (Rect [5, 5] [6, 6]) (Rect [0, 0] [1, 1]) \<and>
   \<not> has_match 2 (Rect [5, 5] [6, 6]) 7 leaf_one \<and>
   removeRect 2 (Rect [5, 5] [6, 6]) 7 (Some leaf_one) = Some (0, Some (Node 0 []))"
  by (simp add: overlap_def upt_2 leaf_one_def removeRect_def disconnectBranch_def)

text \<open>
  Claim C1, amended. The rectangle argument only prunes the descent: Delete answers found
  exactly when some leaf reached through internal branches whose rectangles overlap the
  argument holds an entry with the given payload (\<open>findable\<close>); the stored rectangle of
  the leaf entry is not compared. When the descent answers found, it has disconnected
  exactly one entry with that payload: every other leaf entry is still below the node or
  below a node put on the reinsertion list.
\<close>

theorem delete_matches_payload_on_overlapping_path:
  "(fst (removeRectRec d r itm node L) = 0 \<longleftrightarrow> findable d r itm node) \<and>
   (\<forall>rc rt'. removeRect d r itm (Some node) = Some (rc, rt') \<longrightarrow>
              (rc = 0 \<longleftrightarrow> findable d r itm node)) \<and>
   (\<forall>node' L'. removeRectRec d r itm node L = (0, node', L') \<longrightarrow>
      (\<exists>rr new. L' = new @ L \<and>
         entries node = add_mset (rr, itm) (entries node' + sum_list (map entries new))))"
proof -
  have a: "fst (removeRectRec d r itm node L) = 0 \<longleftrightarrow> findable d r itm node"
    using removeRectRec_flag [of d r itm node L] by auto
  have b: "\<forall>rc rt'. removeRect d r itm (Some node) = Some (rc, rt') \<longrightarrow>
              (rc = 0 \<longleftrightarrow> findable d r itm node)"
    using removeRect_flag by blast
  have c: "\<forall>node' L'. removeRectRec d r itm node L = (0, node', L') \<longrightarrow>
      (\<exists>rr new. L' = new @ L \<and>
         entries node = add_mset (rr, itm) (entries node' + sum_list (map entries new)))"
    using removeRectRec_entries by blast
  from a b c show ?thesis by blast
qed

theorem delete_matches_payload_on_overlapping_path_witness:
  "findable 2 (Rect [2, 2] [3, 3]) 2 leaf_two \<and>
   removeRect 2 (Rect [2, 2] [3, 3]) 2 (Some leaf_two)
     = Some (0, Some (Node 0 [Branch (Rect [0, 0] [1, 1]) None 1])) \<and>
   (\<exists>rr new. [] = new @ [] \<and>
      entries leaf_two = add_mset (rr, 2) (entries (Node 0 [Branch (Rect [0, 0] [1, 1]) None 1])
                                           + sum_list (map entries new)))"
proof -
  have rec: "removeRectRec 2 (Rect [2, 2] [3, 3]) 2 leaf_two []
               = (0, Node 0 [Branch (Rect [0, 0] [1, 1]) None 1], [])"
    by (simp add: leaf_two_def disconnectBranch_def)
  have rem: "removeRect 2 (Rect [2, 2] [3, 3]) 2 (Some leaf_two)
               = Some (0, Some (Node 0 [Branch (Rect [0, 0] [1, 1]) None 1]))"
    by (simp add: leaf_two_def removeRect_def disconnectBranch_def)
  from delete_matches_payload_on_overlapping_path [of 2 "Rect [2, 2] [3, 3]" 2 leaf_two "[]"] rec rem
  show ?thesis by simp
qed

text \<open>
  Claim C7, as the code has it. No leaf entry of the two-entry leaf has both a stored
  rectangle overlapping \<open>[8,8]-[9,9]\<close> and payload 2, yet Delete answers found and the
  entry with payload 2 is gone.
\<close>

theorem delete_changes_tree_without_match:
  "\<not> has_match 2 (Rect [8, 8] [9, 9]) 2 leaf_two \<and>
   removeRect 2 (Rect [8, 8] [9, 9]) 2 (Some leaf_two)
     = Some (0, Some (Node 0 [Branch (Rect [0, 0] [1, 1]) None 1]))"
  by (simp add: overlap_def upt_2 leaf_two_def removeRect_def disconnectBranch_def)

text \<open>
  Claim C7, amended. If no leaf reached through internal branches whose rectangles overlap
  the argument holds an entry with the given payload, in particular if the payload is
  stored nowhere in the tree, Delete answers not found and returns the tree it was given.
\<close>

theorem delete_absent_payload_unchanged:
  "(\<not> findable d r itm node \<longrightarrow> removeRect d r itm (Some node) = Some (1, Some node)) \<and>
   (itm \<notin> snd ` set_mset (entries node) \<longrightarrow>
      removeRect d r itm (Some node) = Some (1, Some node))"
  using removeRect_not_found findable_payload by blast

theorem delete_absent_payload_unchanged_witness:
  "3 \<notin> snd ` set_mset (entries leaf_two) \<and>
   removeRect 2 (Rect [0, 0] [1, 1]) 3 (Some leaf_two) = Some (1, Some leaf_two)"
proof -
  have "3 \<notin> snd ` set_mset (entries leaf_two)"
    by (simp add: leaf_two_def entries_leaf)
  with delete_absent_payload_unchanged [of 2 "Rect [0, 0] [1, 1]" 3 leaf_two]
  show ?thesis by simp
qed

section \<open>Evaluating the size heuristic\<close>

text \<open>
  On rectangles of extent at most \<open>10^6\<close> no operation of the size heuristic overflows,
  and the computed size is the real number of the formula. On the square of side
  \<open>2^520\<close> the square of the half extent overflows and the size is infinite.
\<close>

lemma DBL_OVERFLOW_large: "1000000000000000 < DBL_OVERFLOW"
proof -
  have "DBL_OVERFLOW = 2 ^ 970 * (2 ^ 54 - 1)"
    by (simp add: DBL_OVERFLOW_def)
  moreover have "(1000000000000000 :: real) < 2 ^ 54 - 1" by simp
  moreover have "1 * (2 ^ 54 - 1) \<le> (2 :: real) ^ 970 * (2 ^ 54 - 1)"
    by (intro mult_right_mono) simp_all
  ultimately show ?thesis by simp
qed

lemma to_double_small: "\<bar>x\<bar> \<le> 1000000000000000 \<Longrightarrow> to_double x = Fin x"
  using DBL_OVERFLOW_large by (auto simp: to_double_def)

lemma d_sub_small:
  "\<bar>x - y\<bar> \<le> 1000000000000000 \<Longrightarrow> d_sub (Fin x) (Fin y) = Fin (x - y)"
  by (simp add: d_sub_def to_double_small)

lemma calcRectVolume_num:
  assumes "\<bar>c - a\<bar> \<le> 1000000" "\<bar>e - b\<bar> \<le> 1000000"
  shows "calcRectVolume 2 (Rect [a, b] [c, e])
           = Fin (((c - a) * (c - a) + (e - b) * (e - b)) * 3141593 / 4000000)"
proof -
  define hx where "hx = (c - a) * 0.5"
  define hy where "hy = (e - b) * 0.5"
  have hx: "\<bar>hx\<bar> \<le> 1000000" and hy: "\<bar>hy\<bar> \<le> 1000000"
    using assms by (simp_all add: hx_def hy_def)
  have sx: "hx * hx \<le> 1000000 * 1000000"
    using hx mult_mono [of "\<bar>hx\<bar>" 1000000 "\<bar>hx\<bar>" 1000000] by simp
  have sy: "hy * hy \<le> 1000000 * 1000000"
    using hy mult_mono [of "\<bar>hy\<bar>" 1000000 "\<bar>hy\<bar>" 1000000] by simp
  have px: "0 \<le> hx * hx" and py: "0 \<le> hy * hy" by simp_all
  have e1: "d_sub (Fin c) (Fin a) = Fin (c - a)" "d_sub (Fin e) (Fin b) = Fin (e - b)"
    using assms by (simp_all add: d_sub_small)
  have e2: "d_mul (Fin (c - a)) (Fin 0.5) = Fin hx" "d_mul (Fin (e - b)) (Fin 0.5) = Fin hy"
    using hx hy by (simp_all add: hx_def hy_def to_double_small)
  have e3: "d_mul (Fin hx) (Fin hx) = Fin (hx * hx)" "d_mul (Fin hy) (Fin hy) = Fin (hy * hy)"
    using sx sy px py by (simp_all add: to_double_small)
  have e4: "d_add (Fin 0) (Fin (hx * hx)) = Fin (hx * hx)"
    using sx px by (simp add: to_double_small)
  have e5: "d_add (Fin (hx * hx)) (Fin (hy * hy)) = Fin (hx * hx + hy * hy)"
    using sx sy px py by (simp add: to_double_small)
  have e6: "d_sqrt (Fin (hx * hx + hy * hy)) = Fin (sqrt (hx * hx + hy * hy))"
    using px py by (simp add: not_less)
  have e7: "d_mul (Fin (sqrt (hx * hx + hy * hy))) (Fin (sqrt (hx * hx + hy * hy)))
              = Fin (hx * hx + hy * hy)"
    using sx sy px py by (simp add: to_double_small)
  have e8: "d_mul (Fin (hx * hx + hy * hy)) (Fin 3.141593) = Fin ((hx * hx + hy * hy) * 3.141593)"
  proof -
    have "0 \<le> (hx * hx + hy * hy) * 3.141593" using px py by simp
    moreover have "(hx * hx + hy * hy) * 3.141593 \<le> (1000000 * 1000000 + 1000000 * 1000000) * 3.141593"
      using sx sy by simp
    ultimately show ?thesis by (simp add: to_double_small)
  qed
  have "calcRectVolume 2 (Rect [a, b] [c, e]) = Fin ((hx * hx + hy * hy) * 3.141593)"
    unfolding calcRectVolume_def USE_SPHERICAL_VOLUME_def rectSphericalVolume_def
      UNIT_SPHERE_VOLUME_def upt_2 Let_def
    by (simp only: if_True fold_simps comp_apply rectT.sel nth_Cons_0 nth_Cons_Suc simp_thms
        e1 e2 e3 e4 e5 e6 e7 e8)
  also have "(hx * hx + hy * hy) * 3.141593
               = ((c - a) * (c - a) + (e - b) * (e - b)) * 3141593 / 4000000"
    by (simp add: hx_def hy_def field_simps)
  finally show ?thesis .
qed

lemma combineRect_2:
  "combineRect 2 (Rect [a, b] [c, e]) (Rect [a', b'] [c', e'])
     = Rect [min a a', min b b'] [max c c', max e e']"
  by (simp add: combineRect_unfold numeral_2_eq_2)

lemma calcRectVolume_huge: "calcRectVolume 2 huge_square = PInf"
proof -
  have e1: "d_sub (Fin (2 ^ 520)) (Fin 0) = Fin (2 ^ 520)"
    by (simp add: d_sub_def to_double_def DBL_OVERFLOW_def)
  have e2: "d_mul (Fin (2 ^ 520)) (Fin 0.5) = Fin (2 ^ 519)"
    by (simp add: to_double_def DBL_OVERFLOW_def)
  have e3: "d_mul (Fin (2 ^ 519)) (Fin (2 ^ 519)) = PInf"
    by (simp add: to_double_def DBL_OVERFLOW_def)
  have e4: "d_mul PInf (Fin 3.141593) = PInf"
    by (simp add: inf_times_def)
  have e5: "d_mul PInf PInf = PInf"
    by simp
  show ?thesis
    unfolding calcRectVolume_def USE_SPHERICAL_VOLUME_def rectSphericalVolume_def
      UNIT_SPHERE_VOLUME_def upt_2 Let_def huge_square_def
    by (simp only: if_True fold_simps comp_apply rectT.sel nth_Cons_0 nth_Cons_Suc simp_thms
        e1 e2 e3 e4 e5 d_add.simps d_sqrt.simps)
qed

lemma combineRect_huge: "combineRect 2 huge_square huge_square = huge_square"
  by (simp add: huge_square_def combineRect_2)

lemma upt_8: "[0..<8] = [0, 1, 2, 3, 4, 5, 6, 7]"
  by (simp add: upt_rec)

lemma upt_8_16: "[8..<16] = [8, 9, 10, 11, 12, 13, 14, 15]"
  by (simp add: upt_rec)

section \<open>Deleting from a tree of height two\<close>

lemma pickBranch_fold_rects:
  assumes "fold (\<lambda>index (firstTime, bestIncr, bestArea, best).
           let curRect = g index;
               area' = calcRectVolume d curRect;
               tempRect = combineRect d r curRect;
               increase = d_sub (calcRectVolume d tempRect) area'
           in if d_less increase bestIncr \<or> firstTime then (False, increase, area', index)
              else if d_eq increase bestIncr \<and> d_less area' bestArea
              then (False, increase, area', index)
              else (firstTime, bestIncr, bestArea, best))
        [k..<k + length cs] (ft, bi, ba, be) = res"
    (is "fold ?F _ _ = _")
    and "\<forall>j<length cs. g (k + j) = cs ! j"
  shows "pickBranch_rects d r cs k ft bi ba be = snd (snd (snd res))"
  using assms
proof (induction cs arbitrary: k ft bi ba be)
  case Nil
  then show ?case by auto
next
  case (Cons c cs)
  have l: "[k..<k + length (c # cs)] = k # [Suc k..<Suc k + length cs]"
    using upt_conv_Cons [of k "k + length (c # cs)"] by simp
  have gk: "g k = c" using Cons.prems(2) by auto
  have g': "\<forall>j<length cs. g (Suc k + j) = cs ! j"
  proof (intro allI impI)
    fix j assume "j < length cs"
    then have "g (k + Suc j) = (c # cs) ! Suc j" using Cons.prems(2) by (metis Suc_less_eq length_Cons)
    then show "g (Suc k + j) = cs ! j" by simp
  qed
  obtain ft1 bi1 ba1 be1 where st: "?F k (ft, bi, ba, be) = (ft1, bi1, ba1, be1)"
    by (rule prod_cases4)
  from Cons.prems(1) have "fold ?F [Suc k..<Suc k + length cs] (ft1, bi1, ba1, be1) = res"
    unfolding l by (simp only: fold_simps comp_apply st)
  from Cons.IH [OF this g']
  have ih: "pickBranch_rects d r cs (Suc k) ft1 bi1 ba1 be1 = snd (snd (snd res))" .
  show ?case
    using st ih by (auto simp: gk Let_def split: if_splits)
qed

lemma pickBranch_eval:
  "pickBranch d r node
     = pickBranch_rects d r (map rect (branch node)) 0 True (Fin (- 1)) (Fin 0) 0"
proof -
  define res where "res = fold (\<lambda>index (firstTime, bestIncr, bestArea, best).
           let curRect = rect (branch node ! index);
               area' = calcRectVolume d curRect;
               tempRect = combineRect d r curRect;
               increase = d_sub (calcRectVolume d tempRect) area'
           in if d_less increase bestIncr \<or> firstTime then (False, increase, area', index)
              else if d_eq increase bestIncr \<and> d_less area' bestArea
              then (False, increase, area', index)
              else (firstTime, bestIncr, bestArea, best))
        [0..<0 + length (map rect (branch node))] (True, Fin (- 1), Fin 0, 0)"
  have "pickBranch_rects d r (map rect (branch node)) 0 True (Fin (- 1)) (Fin 0) 0
          = snd (snd (snd res))"
    by (rule pickBranch_fold_rects [where g = "\<lambda>index. rect (branch node ! index)"])
       (simp_all add: res_def)
  moreover have "pickBranch d r node = snd (snd (snd res))"
    by (simp add: pickBranch_def res_def case_prod_beta)
  ultimately show ?thesis by simp
qed

lemmas tree_defs = two_level_tree_def group_node_def column_branch_def column_leaf_def upt_8

lemma map_rect_after_delete:
  "map rect (branch after_delete) =
     [Rect [1000, 0] [1001, 8], Rect [1010, 0] [1011, 8], Rect [1020, 0] [1021, 8],
      Rect [1030, 0] [1031, 8], Rect [1040, 0] [1041, 8], Rect [1050, 0] [1051, 8],
      Rect [1060, 0] [1061, 8], Rect [1070, 0] [1071, 8],
      Rect [70, 0] [71, 8], Rect [0, 0] [11, 8], Rect [20, 0] [21, 8], Rect [30, 0] [31, 8],
      Rect [40, 0] [41, 8], Rect [50, 0] [51, 8], Rect [60, 0] [61, 8]]"
  by (simp add: after_delete_def tree_defs)

lemmas eval_simps = removeRect_def disconnectBranch_def overlap_def upt_2 MIN_NODES_def MAX_NODES_def
  insertRect_def insertRectRec.simps pickBranch_eval calcRectVolume_num combineRect_2 Let_def
  addBranch_def set_branch_def nodeCover_def addBranch_null_def d_sub_small

lemma removeRect_two_level:
  "removeRect 2 (Rect [0, 0] [1, 1]) 1 (Some two_level_tree) = Some (0, Some after_delete)"
  by (simp add: eval_simps tree_defs after_delete_def)

lemma two_level_tree_valid:
  "root_ge 2 (Some two_level_tree)" "tree_ok two_level_tree" "cover_exact 2 two_level_tree"
  by (simp_all add: root_ge_def tree_defs MIN_NODES_def MAX_NODES_def wf2_def
        covers_def nodeCover_def combineRect_2)

lemma entries_two_level: "size (entries two_level_tree) = 128"
  by (simp add: tree_defs entries_internal entries_leaf entries_child_def)

lemma entries_after_delete: "size (entries after_delete) = 64"
  by (simp add: after_delete_def tree_defs entries_internal entries_leaf entries_child_def)

lemma reinsert_ignores_children:
  "reinsertBranches d tempNode bs rt
     = reinsertBranches d tempNode (map (\<lambda>b. Branch (rect b) None (item b)) bs) rt"
  by (induction bs arbitrary: rt) (simp_all split: option.splits)

text \<open>
  Claim C2. The two-level tree is well formed (fill, levels and exact covers: lemma
  \<open>two_level_tree_valid\<close>) and holds 128 entries. Deleting the entry with payload 1 empties a leaf below the minimum, which in
  turn leaves its parent with seven branches: both are detached. The reinsertion passes
  only the rectangle and the (null) payload field of each branch of the detached
  internal node, so seven branches without a child are added at level 1, the seven
  leaves they stood for are released with their node, and the seven entries of the
  detached leaf descend into one of those null children. The tree returned holds 64 of
  the 127 entries that should remain.
\<close>

theorem reinsertion_loses_subtrees:
  "size (entries two_level_tree) = 128 \<and>
   removeRect 2 (Rect [0, 0] [1, 1]) 1 (Some two_level_tree) = Some (0, Some after_delete) \<and>
   size (entries after_delete) = 64"
  using entries_two_level removeRect_two_level entries_after_delete
  by simp

text \<open>
  Claim C4. Before the deletion every internal branch of the two-level tree has exactly
  the covering rectangle of its child. After it, the tree has internal branches with a
  rectangle and no child node at all.
\<close>

theorem cover_broken_after_delete:
  "cover_exact 2 two_level_tree \<and>
   map_option snd (removeRect 2 (Rect [0, 0] [1, 1]) 1 (Some two_level_tree)) = Some (Some after_delete) \<and>
   \<not> cover_exact 2 after_delete"
proof -
  have "\<not> cover_exact 2 after_delete"
    by (simp add: after_delete_def)
  with two_level_tree_valid(3) removeRect_two_level show ?thesis by simp
qed

text \<open>
  Claim C10. In the tree reached by that deletion, inserting the unit square
  \<open>[5,3]-[6,4]\<close> with payload 999 descends into a branch whose child is null and
  returns the same tree: no entry is added. The counting traversal, which gave 128 before
  the deletion, dereferences the null child (\<open>None\<close>); a search over everything still
  finds 64 entries.
\<close>

theorem insert_dropped_after_delete:
  "run_ops 2 [Delete (Rect [0, 0] [1, 1]) 1] (Some two_level_tree) = Some (Some after_delete) \<and>
   insertRect 2 (Rect [5, 3] [6, 4]) 999 (Some after_delete) 0 = Some (0, Some after_delete) \<and>
   countRec two_level_tree 0 = Some 128 \<and>
   countRec after_delete 0 = None \<and>
   search 2 after_delete (Rect [0, 0] [2000, 8]) = 64"
proof -
  have a: "run_ops 2 [Delete (Rect [0, 0] [1, 1]) 1] (Some two_level_tree) = Some (Some after_delete)"
    using removeRect_two_level by simp
  have p: "pickBranch 2 (Rect [5, 3] [6, 4]) after_delete = 9"
    by (simp add: pickBranch_eval map_rect_after_delete calcRectVolume_num combineRect_2 d_sub_small)
  have b: "insertRect 2 (Rect [5, 3] [6, 4]) 999 (Some after_delete) 0 = Some (0, Some after_delete)"
    unfolding insertRect_def
    by (subst insertRectRec.simps) (simp add: p, simp add: after_delete_def tree_defs set_branch_def combineRect_2)
  have c: "countRec two_level_tree 0 = Some 128"
    by (simp add: tree_defs)
  have e: "countRec after_delete 0 = None"
    by (simp add: after_delete_def tree_defs)
  have f: "search 2 after_delete (Rect [0, 0] [2000, 8]) = 64"
    by (simp add: after_delete_def tree_defs overlap_def upt_2)
  from a b c e f show ?thesis by simp
qed

section \<open>Splits on sizes that overflow\<close>

lemma fold_update_const:
  "n \<le> length ys \<Longrightarrow> fold (\<lambda>i t. t[i := v]) [0..<n] ys = replicate n v @ drop n ys"
proof (induction n)
  case 0
  then show ?case by simp
next
  case (Suc n)
  then have "fold (\<lambda>i t. t[i := v]) [0..<Suc n] ys = (replicate n v @ drop n ys)[n := v]"
    by simp
  also have "\<dots> = replicate n v @ (drop n ys)[0 := v]"
    by (simp add: list_update_append)
  also have "(drop n ys)[0 := v] = v # drop (Suc n) ys"
    using Suc.prems by (cases "drop n ys") (auto simp: drop_Suc drop_tl)
  finally show ?case by (simp add: replicate_append_same)
qed

lemma fold_update_copy:
  "n \<le> length ys \<Longrightarrow> n \<le> length xs \<Longrightarrow>
   fold (\<lambda>i t. t[i := xs ! i]) [0..<n] ys = take n xs @ drop n ys"
proof (induction n)
  case 0
  then show ?case by simp
next
  case (Suc n)
  then have "fold (\<lambda>i t. t[i := xs ! i]) [0..<Suc n] ys = (take n xs @ drop n ys)[n := xs ! n]"
    by simp
  also have "\<dots> = take n xs @ (drop n ys)[0 := xs ! n]"
    using Suc.prems by (simp add: list_update_append)
  also have "(drop n ys)[0 := xs ! n] = xs ! n # drop (Suc n) ys"
    using Suc.prems by (cases "drop n ys") (auto simp: drop_Suc drop_tl)
  finally show ?case using Suc.prems by (simp add: take_Suc_conv_app_nth)
qed

lemma replicate_Suc_snoc: "replicate (Suc n) z = replicate n z @ [z]"
  by (simp add: replicate_append_same)

lemma getBranches_buf:
  assumes "count_n node = MAX_NODES"
  shows "branchBuf (snd (getBranches d node b (zeroParVars d))) = branch node @ [b]"
proof -
  let ?z = "replicate MAX_NODES (zeroBranch d) @ [zeroBranch d]"
  have "fold (\<lambda>index buf. buf[index := branch node ! index]) [0..<MAX_NODES] ?z
          = take MAX_NODES (branch node) @ drop MAX_NODES ?z"
    using assms by (intro fold_update_copy) simp_all
  then have "fold (\<lambda>index buf. buf[index := branch node ! index]) [0..<MAX_NODES] ?z
          = branch node @ [zeroBranch d]"
    using assms by simp
  then show ?thesis
    using assms
    by (simp add: getBranches_def zeroParVars_def Let_def list_update_append replicate_Suc_snoc
             del: replicate_Suc)
qed

lemma fold_nth_drop:
  "k \<le> length xs \<Longrightarrow> fold (\<lambda>i. f (xs ! i)) [k..<length xs] s = fold f (drop k xs) s"
proof (induction "length xs - k" arbitrary: k s)
  case 0
  then show ?case by simp
next
  case (Suc n)
  then have k: "k < length xs" by simp
  then have "[k..<length xs] = k # [Suc k..<length xs]"
    by (simp add: upt_conv_Cons)
  moreover have "drop k xs = xs ! k # drop (Suc k) xs"
    using k by (simp add: Cons_nth_drop_Suc)
  moreover have "fold (\<lambda>i. f (xs ! i)) [Suc k..<length xs] (f (xs ! k) s)
                   = fold f (drop (Suc k) xs) (f (xs ! k) s)"
    using Suc.hyps(2) k by (intro Suc.hyps(1)) simp_all
  ultimately show ?case by simp
qed

text \<open>
  The state with which \<open>pickSeeds\<close> is called in \<open>splitNode\<close>: the buffer holds the
  branches of the full node and the new branch, \<open>coverSplit\<close> is the union of their
  rectangles.
\<close>

lemma split_start:
  fixes node :: nodeT and b :: branchT and d :: nat
  assumes "count_n node = MAX_NODES"
  defines "pv \<equiv> snd (getBranches d node b (zeroParVars d))"
  defines "cs \<equiv> fold (\<lambda>x cs. combineRect d cs (rect x)) (tl (branch node @ [b]))
                     (rect (hd (branch node @ [b])))"
  shows "initParVars pv (branchCount pv) MIN_NODES
           = parVars_init d (branch node @ [b]) cs (calcRectVolume d cs)"
proof -
  define buf where "buf = branch node @ [b]"
  have len: "length buf = MAX_NODES + 1" using assms(1) by (simp add: buf_def)
  have ne: "buf \<noteq> []" by (simp add: buf_def)
  have bufeq: "branchBuf pv = buf"
    unfolding pv_def buf_def using assms(1) by (rule getBranches_buf)
  let ?g = "\<lambda>x cs. combineRect d cs (rect x)"
  have "fold (\<lambda>index. ?g (buf ! index)) [1..<length buf] (rect (buf ! 0))
          = fold ?g (drop 1 buf) (rect (buf ! 0))"
    by (rule fold_nth_drop) (simp add: len)
  also have "drop 1 buf = tl buf" by (simp add: drop_Suc)
  finally have "fold (\<lambda>index. ?g (buf ! index)) [1..<length buf] (rect (buf ! 0))
                  = fold ?g (tl buf) (rect (buf ! 0))" .
  moreover have "buf ! 0 = hd buf" using ne by (simp add: hd_conv_nth)
  ultimately have cov: "fold (\<lambda>index cs. combineRect d cs (rect (buf ! index))) [1..<MAX_NODES + 1]
                    (rect (buf ! 0)) = cs"
    unfolding cs_def buf_def [symmetric] len by simp
  have "getBranches d node b (zeroParVars d)
          = (Node (- 1) [], (zeroParVars d)\<lparr>branchBuf := branchBuf pv,
               branchCount := MAX_NODES + 1,
               coverSplit := fold (\<lambda>index cs. combineRect d cs (rect (branchBuf pv ! index)))
                               [1..<MAX_NODES + 1] (rect (branchBuf pv ! 0)),
               coverSplitArea := calcRectVolume d
                  (fold (\<lambda>index cs. combineRect d cs (rect (branchBuf pv ! index)))
                               [1..<MAX_NODES + 1] (rect (branchBuf pv ! 0)))\<rparr>)"
    unfolding pv_def by (simp add: getBranches_def Let_def)
  then have pv: "pv = (zeroParVars d)\<lparr>branchBuf := buf, branchCount := MAX_NODES + 1,
                  coverSplit := cs, coverSplitArea := calcRectVolume d cs\<rparr>"
    unfolding bufeq cov unfolding pv_def by simp
  have t: "fold (\<lambda>index t. t[index := False]) [0..<17] (replicate 17 False) = replicate 17 False"
    using fold_update_const [of 17 "replicate 17 False" False] by simp
  have p: "fold (\<lambda>index p. p[index := - 1]) [0..<17] (replicate 17 (0 :: int)) = replicate 17 (- 1)"
    using fold_update_const [of 17 "replicate 17 (0 :: int)" "- 1"] by simp
  show ?thesis
    unfolding pv buf_def [symmetric]
    by (simp add: initParVars_def zeroParVars_def parVars_init_def MAX_NODES_def MIN_NODES_def t p)
qed

lemma upt_16: "[0..<16] = [0, 1, 2, 3, 4, 5, 6, 7, 8, 9, 10, 11, 12, 13, 14, 15]"
  by (simp add: upt_rec)

lemma upt_17: "[0..<17] = [0, 1, 2, 3, 4, 5, 6, 7, 8, 9, 10, 11, 12, 13, 14, 15, 16]"
  by (simp add: upt_rec)

lemma upt_1_17: "[Suc 0..<17] = [1, 2, 3, 4, 5, 6, 7, 8, 9, 10, 11, 12, 13, 14, 15, 16]"
  by (simp add: upt_rec)

lemma Suc_Suc_0: "Suc (Suc 0) = 2"
  by simp

lemma replicate_numeral: "replicate (numeral k) x = x # replicate (numeral k - 1) x"
  by (simp add: numeral_eq_Suc)

lemma list_update_Cons_numeral: "(x # xs)[numeral v := y] = x # xs[numeral v - 1 := y]"
  by (simp add: numeral_eq_Suc)

lemmas index_simps = upt_16 upt_17 upt_1_17 Suc_Suc_0 replicate_numeral list_update_Cons_numeral

lemma pickSeeds_huge:
  "pickSeeds 2 (parVars_init 2 huge_buf huge_square PInf)
     = (parVars_init 2 huge_buf huge_square PInf)
         \<lparr>partition_pv := 1 # replicate 16 (- 1), taken := True # replicate 16 False,
          count_pv := (1, 1), cover := (huge_square, huge_square), area := (PInf, PInf)\<rparr>"
  by (simp add: pickSeeds_def parVars_init_def classify_def Let_def at2_def upd2_def d_sub_def
      d_greater_def huge_buf_def index_simps calcRectVolume_huge combineRect_huge)

lemmas split_simps = parVars_init_def classify_def Let_def at2_def upd2_def d_sub_def
  d_greater_def d_ge_def index_simps

lemma chooseLoop_huge:
  "chooseLoop 2 ((parVars_init 2 huge_buf huge_square PInf)
         \<lparr>partition_pv := 1 # replicate 16 (- 1), taken := True # replicate 16 False,
          count_pv := (1, 1), cover := (huge_square, huge_square), area := (PInf, PInf)\<rparr>) (0, 0, 0)
     = (parVars_init 2 huge_buf huge_square PInf)
         \<lparr>partition_pv := 0 # replicate 16 (- 1), taken := True # replicate 16 False,
          count_pv := (9, 1), cover := (huge_square, huge_square), area := (PInf, PInf)\<rparr>"
  by (simp add: chooseLoop.simps pickNext_def split_simps huge_buf_def
      calcRectVolume_huge combineRect_huge)

lemma choosePartition_huge:
  "choosePartition 2 (snd (getBranches 2 huge_leaf (Branch huge_square None 17) (zeroParVars 2)))
     MIN_NODES
     = (parVars_init 2 huge_buf huge_square PInf)
         \<lparr>partition_pv := 0 # replicate 16 1, taken := replicate 17 True,
          count_pv := (9, 17), cover := (huge_square, huge_square), area := (PInf, PInf)\<rparr>"
proof -
  have full: "count_n huge_leaf = MAX_NODES"
    by (simp add: huge_leaf_def MAX_NODES_def)
  have buf: "branch huge_leaf @ [Branch huge_square None 17] = huge_buf"
    by (simp add: huge_leaf_def huge_buf_def index_simps)
  have cs: "fold (\<lambda>x cs. combineRect 2 cs (rect x)) (tl huge_buf) (rect (hd huge_buf)) = huge_square"
    by (simp add: huge_buf_def index_simps combineRect_huge)
  have start: "initParVars (snd (getBranches 2 huge_leaf (Branch huge_square None 17) (zeroParVars 2)))
                 (branchCount (snd (getBranches 2 huge_leaf (Branch huge_square None 17) (zeroParVars 2))))
                 MIN_NODES
               = parVars_init 2 huge_buf huge_square PInf"
    using split_start [OF full, of 2 "Branch huge_square None 17"]
    by (simp only: buf cs calcRectVolume_huge)
  show ?thesis
    unfolding choosePartition_def Let_def start pickSeeds_huge chooseLoop_huge
    by (simp add: split_simps huge_buf_def calcRectVolume_huge combineRect_huge)
qed

lemma splitNode_huge:
  "splitNode 2 huge_leaf (Branch huge_square None 17)
     = Some (Node 0 [Branch huge_square None 1],
             Node 0 (map (\<lambda>i. Branch huge_square None (Suc i)) [1..<17]))"
proof -
  have g: "fst (getBranches 2 huge_leaf (Branch huge_square None 17) (zeroParVars 2)) = Node (- 1) []"
    by (simp add: getBranches_def Let_def)
  have "splitNode 2 huge_leaf (Branch huge_square None 17)
          = loadNodes (Node 0 []) (Node 0 [])
              (choosePartition 2
                 (snd (getBranches 2 huge_leaf (Branch huge_square None 17) (zeroParVars 2)))
                 MIN_NODES)"
    using g by (simp add: splitNode_def Let_def case_prod_beta huge_leaf_def)
  also have "\<dots> = Some (Node 0 [Branch huge_square None 1],
             Node 0 (map (\<lambda>i. Branch huge_square None (Suc i)) [1..<17]))"
    unfolding choosePartition_huge
    by (simp add: loadNodes_def addBranch_null_def MAX_NODES_def parVars_init_def huge_buf_def
        index_simps)
  finally show ?thesis .
qed

lemma calcRectVolume_unit:
  "calcRectVolume 2 west_square = Fin (3141593 / 2000000)"
  "calcRectVolume 2 east_square = Fin (3141593 / 2000000)"
  "calcRectVolume 2 (Rect [0, 0] [101, 1]) = Fin (10202 * 3141593 / 4000000)"
  by (simp_all add: west_square_def east_square_def calcRectVolume_num)

lemma combineRect_cluster:
  "combineRect 2 west_square west_square = west_square"
  "combineRect 2 east_square east_square = east_square"
  "combineRect 2 west_square east_square = Rect [0, 0] [101, 1]"
  "combineRect 2 east_square west_square = Rect [0, 0] [101, 1]"
  "combineRect 2 west_square huge_square = huge_square"
  "combineRect 2 huge_square west_square = huge_square"
  "combineRect 2 east_square huge_square = huge_square"
  "combineRect 2 huge_square east_square = huge_square"
  by (simp_all add: west_square_def east_square_def huge_square_def combineRect_2)

lemmas cluster_simps = calcRectVolume_unit calcRectVolume_huge combineRect_cluster combineRect_huge
  d_sub_small to_double_small

lemma cluster_buf_eq:
  "cluster_buf = map (\<lambda>i. Branch west_square None (Suc i)) [0..<8] @
                 map (\<lambda>i. Branch east_square None (Suc i)) [8..<16] @ [Branch huge_square None 17]"
  by (simp add: cluster_buf_def cluster_pairs_def)

lemma pickSeeds_cluster:
  "pickSeeds 2 (parVars_init 2 cluster_buf huge_square PInf)
     = (parVars_init 2 cluster_buf huge_square PInf)
         \<lparr>partition_pv := 0 # replicate 7 (- 1) @ 1 # replicate 8 (- 1),
          taken := True # replicate 7 False @ True # replicate 8 False,
          count_pv := (1, 1), cover := (west_square, east_square),
          area := (Fin (3141593 / 2000000), Fin (3141593 / 2000000))\<rparr>"
  by (simp add: pickSeeds_def parVars_init_def classify_def Let_def at2_def upd2_def
      d_greater_def cluster_buf_eq upt_8 upt_8_16 index_simps cluster_simps d_sub_def)

lemma chooseLoop_cluster:
  "chooseLoop 2 ((parVars_init 2 cluster_buf huge_square PInf)
         \<lparr>partition_pv := 0 # replicate 7 (- 1) @ 1 # replicate 8 (- 1),
          taken := True # replicate 7 False @ True # replicate 8 False,
          count_pv := (1, 1), cover := (west_square, east_square),
          area := (Fin (3141593 / 2000000), Fin (3141593 / 2000000))\<rparr>) (0, 0, 0)
     = (parVars_init 2 cluster_buf huge_square PInf)
         \<lparr>partition_pv := replicate 8 0 @ replicate 8 1 @ [- 1],
          taken := replicate 16 True @ [False],
          count_pv := (8, 9), cover := (west_square, east_square),
          area := (Fin (3141593 / 2000000), Fin (3141593 / 2000000))\<rparr>"
  by (simp add: chooseLoop.simps pickNext_def split_simps cluster_buf_eq upt_8 upt_8_16 cluster_simps)

lemma choosePartition_cluster:
  "choosePartition 2 (snd (getBranches 2 cluster_leaf (Branch huge_square None 17) (zeroParVars 2)))
     MIN_NODES
     = (parVars_init 2 cluster_buf huge_square PInf)
         \<lparr>partition_pv := replicate 8 0 @ replicate 8 1 @ [- 1],
          taken := replicate 16 True @ [False],
          count_pv := (8, 9), cover := (west_square, east_square),
          area := (Fin (3141593 / 2000000), Fin (3141593 / 2000000))\<rparr>"
proof -
  have full: "count_n cluster_leaf = MAX_NODES"
    by (simp add: cluster_leaf_def cluster_pairs_def MAX_NODES_def)
  have buf: "branch cluster_leaf @ [Branch huge_square None 17] = cluster_buf"
    by (simp add: cluster_leaf_def cluster_buf_def cluster_pairs_def)
  have cs: "fold (\<lambda>x cs. combineRect 2 cs (rect x)) (tl cluster_buf) (rect (hd cluster_buf))
              = huge_square"
    by (simp add: cluster_buf_eq upt_8 upt_8_16 west_square_def east_square_def huge_square_def
        combineRect_2)
  have start: "initParVars (snd (getBranches 2 cluster_leaf (Branch huge_square None 17) (zeroParVars 2)))
                 (branchCount (snd (getBranches 2 cluster_leaf (Branch huge_square None 17) (zeroParVars 2))))
                 MIN_NODES
               = parVars_init 2 cluster_buf huge_square PInf"
    using split_start [OF full, of 2 "Branch huge_square None 17"]
    by (simp only: buf cs calcRectVolume_huge)
  show ?thesis
    unfolding choosePartition_def Let_def start pickSeeds_cluster chooseLoop_cluster
    by (simp add: parVars_init_def)
qed

lemma splitNode_cluster:
  "splitNode 2 cluster_leaf (Branch huge_square None 17)
     = Some (Node 0 (map (\<lambda>i. Branch west_square None (Suc i)) [0..<8]),
             Node 0 (map (\<lambda>i. Branch east_square None (Suc i)) [8..<16]))"
proof -
  have g: "fst (getBranches 2 cluster_leaf (Branch huge_square None 17) (zeroParVars 2)) = Node (- 1) []"
    by (simp add: getBranches_def Let_def)
  have "splitNode 2 cluster_leaf (Branch huge_square None 17)
          = loadNodes (Node 0 []) (Node 0 [])
              (choosePartition 2
                 (snd (getBranches 2 cluster_leaf (Branch huge_square None 17) (zeroParVars 2)))
                 MIN_NODES)"
    using g by (simp add: splitNode_def Let_def case_prod_beta cluster_leaf_def)
  also have "\<dots> = Some (Node 0 (map (\<lambda>i. Branch west_square None (Suc i)) [0..<8]),
             Node 0 (map (\<lambda>i. Branch east_square None (Suc i)) [8..<16]))"
    unfolding choosePartition_cluster
    by (simp add: loadNodes_def addBranch_null_def MAX_NODES_def parVars_init_def cluster_buf_eq
        upt_8 upt_8_16 index_simps)
  finally show ?thesis .
qed

lemma insert_into_leaf:
  "length bs < MAX_NODES \<Longrightarrow>
   apply_op d (Some (Node 0 bs)) (Insert r itm) = Some (Some (Node 0 (bs @ [Branch r None itm])))"
  by (simp add: insertRect_def insertRectRec.simps addBranch_def)

lemma run_ops_append:
  "run_ops d (xs @ ys) rt = (case run_ops d xs rt of None \<Rightarrow> None | Some rt' \<Rightarrow> run_ops d ys rt')"
  by (induction xs arbitrary: rt) (simp_all split: option.splits)

lemma huge_leaf_built:
  "run_ops 2 (map (\<lambda>i. Insert huge_square (Suc i)) [0..<16]) emptyRoot = Some (Some huge_leaf)"
  by (simp add: emptyRoot_def huge_leaf_def upt_16 insert_into_leaf MAX_NODES_def del: apply_op.simps)

lemma insert_huge_17:
  "apply_op 2 (Some huge_leaf) (Insert huge_square 17) = Some (Some huge_tree)"
proof -
  have lvl: "level huge_leaf = 0" and cnt: "count_n huge_leaf = 16"
    by (simp_all add: huge_leaf_def)
  have ins: "insertRectRec 2 huge_square 17 huge_leaf 0
               = Some (Node 0 [Branch huge_square None 1],
                       Some (Node 0 (map (\<lambda>i. Branch huge_square None (Suc i)) [1..<17])))"
    by (subst insertRectRec.simps) (simp add: lvl cnt addBranch_def MAX_NODES_def splitNode_huge)
  show ?thesis
    by (simp add: insertRect_def ins addBranch_null_def MAX_NODES_def huge_tree_def nodeCover_def
        upt_1_17 combineRect_huge)
qed

lemma cluster_leaf_built:
  "run_ops 2 (map (\<lambda>(r, i). Insert r i) (take 16 cluster_pairs)) emptyRoot = Some (Some cluster_leaf)"
  by (simp add: emptyRoot_def cluster_leaf_def cluster_pairs_def upt_8 upt_8_16 insert_into_leaf
      MAX_NODES_def del: apply_op.simps)

lemma insert_cluster_17:
  "apply_op 2 (Some cluster_leaf) (Insert huge_square 17) = Some (Some cluster_tree)"
proof -
  have lvl: "level cluster_leaf = 0" and cnt: "count_n cluster_leaf = 16"
    by (simp_all add: cluster_leaf_def cluster_pairs_def)
  have ins: "insertRectRec 2 huge_square 17 cluster_leaf 0
               = Some (Node 0 (map (\<lambda>i. Branch west_square None (Suc i)) [0..<8]),
                       Some (Node 0 (map (\<lambda>i. Branch east_square None (Suc i)) [8..<16])))"
    by (subst insertRectRec.simps) (simp add: lvl cnt addBranch_def MAX_NODES_def splitNode_cluster)
  show ?thesis
    by (simp add: insertRect_def ins addBranch_null_def MAX_NODES_def cluster_tree_def nodeCover_def
        upt_8 upt_8_16 combineRect_cluster)
qed

text \<open>
  Claim C3. Seventeen insertions of the square of side \<open>2^520\<close>, a well-formed rectangle
  with double coordinates, into the empty root. Every computed size is infinite and every
  waste and growth is NaN, so no comparison of the split succeeds: both seeds stay at
  index 0, which is classified again on every pass until group 0 counts nine. The tree
  returned has a leaf with a single branch below the root, fewer than \<open>MIN_NODES\<close>.
\<close>

theorem huge_squares_unbalance:
  "wellFormed 2 huge_square \<and>
   run_ops 2 huge_inserts emptyRoot = Some (Some huge_tree) \<and>
   map (\<lambda>b. case child b of None \<Rightarrow> 0 | Some c \<Rightarrow> count_n c) (branch huge_tree) = [1, 16] \<and>
   \<not> balanced (Some huge_tree)"
proof -
  have w: "wellFormed 2 huge_square"
    by (simp add: wellFormed_def huge_square_def upt_2)
  have eq: "huge_inserts = map (\<lambda>i. Insert huge_square (Suc i)) [0..<16] @ [Insert huge_square 17]"
    by (simp add: huge_inserts_def upt_16 upt_17)
  have r: "run_ops 2 huge_inserts emptyRoot = Some (Some huge_tree)"
    unfolding eq run_ops_append huge_leaf_built
    by (simp only: option.case run_ops.simps insert_huge_17)
  have c: "map (\<lambda>b. case child b of None \<Rightarrow> 0 | Some c \<Rightarrow> count_n c) (branch huge_tree) = [1, 16]"
    by (simp add: huge_tree_def)
  have b: "\<not> balanced (Some huge_tree)"
    by (simp add: balanced_def huge_tree_def MIN_NODES_def MAX_NODES_def)
  from w r c b show ?thesis by simp
qed

text \<open>
  Claim C5. Two splits of a full leaf with one incoming branch. With seventeen huge
  squares the reused node keeps one branch and the sibling takes sixteen. With eight unit
  squares at the origin, eight at \<open>x = 100\<close> and the huge square as the incoming branch,
  the two nodes take eight unit squares each and the incoming branch is in neither.
\<close>

theorem splitNode_starves_or_drops:
  "count_n huge_leaf = MAX_NODES \<and>
   splitNode 2 huge_leaf (Branch huge_square None 17)
     = Some (Node 0 [Branch huge_square None 1],
             Node 0 (map (\<lambda>i. Branch huge_square None (Suc i)) [1..<17])) \<and>
   count_n (Node 0 [Branch huge_square None 1]) < MIN_NODES \<and>
   count_n cluster_leaf = MAX_NODES \<and>
   splitNode 2 cluster_leaf (Branch huge_square None 17)
     = Some (Node 0 (map (\<lambda>i. Branch west_square None (Suc i)) [0..<8]),
             Node 0 (map (\<lambda>i. Branch east_square None (Suc i)) [8..<16])) \<and>
   Branch huge_square None 17
     \<notin> set (map (\<lambda>i. Branch west_square None (Suc i)) [0..<8] @
            map (\<lambda>i. Branch east_square None (Suc i)) [8..<16])"
proof -
  have a: "count_n huge_leaf = MAX_NODES" "count_n cluster_leaf = MAX_NODES"
    by (simp_all add: huge_leaf_def cluster_leaf_def cluster_pairs_def MAX_NODES_def)
  have b: "count_n (Node 0 [Branch huge_square None 1]) < MIN_NODES"
    by (simp add: MIN_NODES_def MAX_NODES_def)
  have c: "Branch huge_square None 17
     \<notin> set (map (\<lambda>i. Branch west_square None (Suc i)) [0..<8] @
            map (\<lambda>i. Branch east_square None (Suc i)) [8..<16])"
    by auto
  from a b c splitNode_huge splitNode_cluster show ?thesis by simp
qed

text \<open>
  Claim C6. The seventeen pairs of \<open>cluster_pairs\<close> are distinct, their rectangles are
  well formed and lie inside the huge square. Inserted in this order into the empty root,
  the seventeenth insertion splits the root leaf: the pass that sees only the huge square
  computes a NaN difference and classifies the branch chosen on the pass before once more,
  which ends the loop with the huge square in no group. A search with the huge square as
  query counts 16, and the pair with payload 17 is not among the entries of the tree.
\<close>

theorem inserted_entry_missing_from_search:
  "length cluster_pairs = 17 \<and> distinct cluster_pairs \<and>
   list_all (\<lambda>(r, i). wellFormed 2 r \<and> covers huge_square r) cluster_pairs \<and>
   run_ops 2 (map (\<lambda>(r, i). Insert r i) cluster_pairs) emptyRoot = Some (Some cluster_tree) \<and>
   search 2 cluster_tree huge_square = 16 \<and>
   (huge_square, 17) \<notin># entries cluster_tree"
proof -
  have l: "length cluster_pairs = 17"
    by (simp add: cluster_pairs_def)
  have ne: "west_square \<noteq> east_square"
    by (simp add: west_square_def east_square_def)
  have d: "distinct cluster_pairs"
    using ne by (auto simp: cluster_pairs_def distinct_map inj_on_def)
  have w: "list_all (\<lambda>(r, i). wellFormed 2 r \<and> covers huge_square r) cluster_pairs"
    by (simp add: cluster_pairs_def list_all_iff wellFormed_def covers_def upt_2 west_square_def
        east_square_def huge_square_def)
  have eq: "map (\<lambda>(r, i). Insert r i) cluster_pairs
          = map (\<lambda>(r, i). Insert r i) (take 16 cluster_pairs) @ [Insert huge_square 17]"
    by (simp add: cluster_pairs_def)
  have r: "run_ops 2 (map (\<lambda>(r, i). Insert r i) cluster_pairs) emptyRoot
                  = Some (Some cluster_tree)"
    unfolding eq run_ops_append cluster_leaf_built
    by (simp only: option.case run_ops.simps insert_cluster_17)
  have s: "search 2 cluster_tree huge_square = 16"
    by (simp add: cluster_tree_def upt_8 upt_8_16 overlap_def upt_2 west_square_def east_square_def
        huge_square_def)
  have e: "(huge_square, 17) \<notin># entries cluster_tree"
    by (simp add: cluster_tree_def entries_internal entries_leaf entries_child_def upt_8 upt_8_16)
  from l d w r s e show ?thesis by simp
qed

end
